theory Spec2Isabelle
  imports Main
begin

section \<open>HipHTML: a cursor over a parsed HTML tree\<close>

text \<open>
  The Go package \<^verbatim>\<open>hiphtml\<close> (\<^verbatim>\<open>parser.go\<close>) wraps the node tree built by
  \<^verbatim>\<open>golang.org/x/net/html\<close> in a \<^verbatim>\<open>Parser\<close>: a pointer to the document node, a pointer to
  the current node and a level counter. Every method follows the pointers of the current
  node and updates the two mutable fields.

  The embedding is shallow. The nodes live in a store \<open>h\<close> that maps a pointer to the
  fields of the node it points to; a nil pointer is \<open>None\<close>. Every method takes the store
  and the parser and returns its Go result together with the parser after the call. A Go
  result \<^verbatim>\<open>(*html.Node, error)\<close> is a value of \<open>error + 'a\<close>: \<open>Inl e\<close> for
  \<^verbatim>\<open>(nil, e)\<close> and \<open>Inr n\<close> for \<^verbatim>\<open>(n, nil)\<close>. A method with a loop that may run forever on
  a store with cyclic links returns an \<open>option\<close>: \<open>None\<close> means the call does not return.
\<close>

subsection \<open>Nodes, the store and the parser\<close>

text \<open>
  The node kinds of \<^verbatim>\<open>html.NodeType\<close> in the external library, in its order. The code of
  this package only compares a kind with \<^verbatim>\<open>html.ElementNode\<close> and \<^verbatim>\<open>html.TextNode\<close>.
\<close>

datatype NodeType =
  ErrorNode | TextNode | DocumentNode | ElementNode | CommentNode | DoctypeNode | RawNode

text \<open>
  The fields of \<^verbatim>\<open>html.Node\<close> that the package reads: the five links, the kind and the
  atom of the tag. \<open>'a\<close> is the type of non-nil node pointers and \<open>'b\<close> the type
  \<^verbatim>\<open>atom.Atom\<close> of tag identifiers, of which the code only uses equality.
\<close>

record ('a, 'b) Node =
  n_Parent :: "'a option"
  n_FirstChild :: "'a option"
  n_LastChild :: "'a option"
  n_PrevSibling :: "'a option"
  n_NextSibling :: "'a option"
  n_Type :: NodeType
  n_DataAtom :: 'b

type_synonym ('a, 'b) heap = "'a \<Rightarrow> ('a, 'b) Node"

datatype error = ErrBegOfDoc | ErrEndOfDoc | ErrNoSuchRelative

text \<open>
  The struct \<^verbatim>\<open>Parser\<close>. The fields \<^verbatim>\<open>doc\<close> and \<^verbatim>\<open>node\<close> are never nil: \<^verbatim>\<open>NewParser\<close> sets
  both to the document returned by a successful \<^verbatim>\<open>html.Parse\<close>, and every method assigns
  \<^verbatim>\<open>node\<close> only a pointer it has compared with nil. The field \<^verbatim>\<open>level\<close> is a Go \<^verbatim>\<open>int\<close>; it
  starts at 0 and changes by one for each parent or child link followed. On a tree its
  absolute value stays below the number of nodes, which the address space bounds well
  below the range of \<^verbatim>\<open>int\<close>, so it is modelled as a mathematical integer.
\<close>

record 'a Parser =
  doc :: 'a
  node :: 'a
  level :: int

text \<open>
  \<^verbatim>\<open>NewParser\<close> calls the external \<^verbatim>\<open>html.Parse\<close> on its reader; the model takes the result
  of that call, an error of the library or the document node, as its argument.
\<close>

definition NewParser :: "'e + 'a \<Rightarrow> 'e + 'a Parser" where
  "NewParser parsed =
     (case parsed of
        Inl err \<Rightarrow> Inl err
      | Inr d \<Rightarrow> Inr \<lparr>doc = d, node = d, level = 0\<rparr>)"

definition Node :: "'a Parser \<Rightarrow> 'a" where
  "Node p = node p"

definition Level :: "'a Parser \<Rightarrow> int" where
  "Level p = level p"

definition isElem :: "('a, 'b) Node \<Rightarrow> bool" where
  "isElem n = (n_Type n = ElementNode)"

definition isText :: "('a, 'b) Node \<Rightarrow> bool" where
  "isText n = (n_Type n = TextNode)"

subsection \<open>Primitive moves\<close>

definition NextSibling :: "('a, 'b) heap \<Rightarrow> 'a Parser \<Rightarrow> (error + 'a) \<times> 'a Parser" where
  "NextSibling h p =
     (case n_NextSibling (h (node p)) of
        None \<Rightarrow> (Inl ErrNoSuchRelative, p)
      | Some n \<Rightarrow> (Inr n, p\<lparr>node := n\<rparr>))"

definition PrevSibling :: "('a, 'b) heap \<Rightarrow> 'a Parser \<Rightarrow> (error + 'a) \<times> 'a Parser" where
  "PrevSibling h p =
     (case n_PrevSibling (h (node p)) of
        None \<Rightarrow> (Inl ErrNoSuchRelative, p)
      | Some n \<Rightarrow> (Inr n, p\<lparr>node := n\<rparr>))"

definition Parent :: "('a, 'b) heap \<Rightarrow> 'a Parser \<Rightarrow> (error + 'a) \<times> 'a Parser" where
  "Parent h p =
     (case n_Parent (h (node p)) of
        None \<Rightarrow> (Inl ErrNoSuchRelative, p)
      | Some n \<Rightarrow> (Inr n, p\<lparr>node := n, level := level p - 1\<rparr>))"

definition FirstChild :: "('a, 'b) heap \<Rightarrow> 'a Parser \<Rightarrow> (error + 'a) \<times> 'a Parser" where
  "FirstChild h p =
     (case n_FirstChild (h (node p)) of
        None \<Rightarrow> (Inl ErrNoSuchRelative, p)
      | Some n \<Rightarrow> (Inr n, p\<lparr>node := n, level := level p + 1\<rparr>))"

definition LastChild :: "('a, 'b) heap \<Rightarrow> 'a Parser \<Rightarrow> (error + 'a) \<times> 'a Parser" where
  "LastChild h p =
     (case n_LastChild (h (node p)) of
        None \<Rightarrow> (Inl ErrNoSuchRelative, p)
      | Some n \<Rightarrow> (Inr n, p\<lparr>node := n, level := level p + 1\<rparr>))"

definition Reset :: "'a Parser \<Rightarrow> 'a \<times> 'a Parser" where
  "Reset p = (doc p, p\<lparr>node := doc p, level := 0\<rparr>)"

subsection \<open>The two sibling searches\<close>

text \<open>
  The loop of \<^verbatim>\<open>nextSiblingAscending\<close>: it returns from inside the loop when
  \<^verbatim>\<open>NextSibling\<close> succeeds (\<open>Some n\<close>) and leaves the loop when \<^verbatim>\<open>Parent\<close> fails
  (\<open>None\<close>). On a store whose parent links form a cycle it never returns.
\<close>

partial_function (option) nextSiblingAscending_loop ::
  "('a, 'b) heap \<Rightarrow> 'a Parser \<Rightarrow> ('a option \<times> 'a Parser) option" where
  "nextSiblingAscending_loop h p =
     (case NextSibling h p of
        (Inr n, p1) \<Rightarrow> Some (Some (node p1), p1)
      | (Inl e, p1) \<Rightarrow>
          (case Parent h p1 of
             (Inr n, p2) \<Rightarrow> nextSiblingAscending_loop h p2
           | (Inl e', p2) \<Rightarrow> Some (None, p2)))"

definition nextSiblingAscending ::
  "('a, 'b) heap \<Rightarrow> 'a Parser \<Rightarrow> ((error + 'a) \<times> 'a Parser) option" where
  "nextSiblingAscending h p =
     (case nextSiblingAscending_loop h p of
        None \<Rightarrow> None
      | Some (Some n, p1) \<Rightarrow> Some (Inr n, p1)
      | Some (None, p1) \<Rightarrow>
          Some (Inl ErrNoSuchRelative, p1\<lparr>node := node p, level := level p\<rparr>))"

text \<open>
  The loop of \<^verbatim>\<open>prevSiblingDescending\<close>: \<^verbatim>\<open>LastChild\<close> until it fails.
\<close>

partial_function (option) prevSiblingDescending_loop ::
  "('a, 'b) heap \<Rightarrow> 'a Parser \<Rightarrow> 'a Parser option" where
  "prevSiblingDescending_loop h p =
     (case LastChild h p of
        (Inr n, p1) \<Rightarrow> prevSiblingDescending_loop h p1
      | (Inl e, p1) \<Rightarrow> Some p1)"

definition prevSiblingDescending ::
  "('a, 'b) heap \<Rightarrow> 'a Parser \<Rightarrow> ((error + 'a) \<times> 'a Parser) option" where
  "prevSiblingDescending h p =
     (case PrevSibling h p of
        (Inl e, p1) \<Rightarrow> Some (Inl ErrNoSuchRelative, p1)
      | (Inr n, p1) \<Rightarrow>
          (case prevSiblingDescending_loop h p1 of
             None \<Rightarrow> None
           | Some p2 \<Rightarrow> Some (Inr (node p2), p2)))"

subsection \<open>Document-order stepping\<close>

definition Next :: "('a, 'b) heap \<Rightarrow> 'a Parser \<Rightarrow> ((error + 'a) \<times> 'a Parser) option" where
  "Next h p =
     (case FirstChild h p of
        (Inr n, p1) \<Rightarrow> Some (Inr (node p1), p1)
      | (Inl e, p1) \<Rightarrow>
          (case nextSiblingAscending h p1 of
             None \<Rightarrow> None
           | Some (Inr n, p2) \<Rightarrow> Some (Inr (node p2), p2)
           | Some (Inl e', p2) \<Rightarrow> Some (Inl ErrEndOfDoc, p2)))"

definition Prev :: "('a, 'b) heap \<Rightarrow> 'a Parser \<Rightarrow> ((error + 'a) \<times> 'a Parser) option" where
  "Prev h p =
     (case prevSiblingDescending h p of
        None \<Rightarrow> None
      | Some (Inr n, p1) \<Rightarrow> Some (Inr (node p1), p1)
      | Some (Inl e, p1) \<Rightarrow>
          (case Parent h p1 of
             (Inr n, p2) \<Rightarrow> Some (Inr (node p2), p2)
           | (Inl e', p2) \<Rightarrow> Some (Inl ErrBegOfDoc, p2)))"

subsection \<open>Filtered traversal\<close>

partial_function (option) NextElement ::
  "('a, 'b) heap \<Rightarrow> 'a Parser \<Rightarrow> ((error + 'a) \<times> 'a Parser) option" where
  "NextElement h p =
     (if \<not> isElem (h (node p)) then
        Option.bind (Next h p) (\<lambda>(r, p1).
          case r of
            Inl e \<Rightarrow> Some (Inl ErrEndOfDoc, p1)
          | Inr n \<Rightarrow> NextElement h p1)
      else Some (Inr (node p), p))"

partial_function (option) PrevElement ::
  "('a, 'b) heap \<Rightarrow> 'a Parser \<Rightarrow> ((error + 'a) \<times> 'a Parser) option" where
  "PrevElement h p =
     (if \<not> isElem (h (node p)) then
        Option.bind (Prev h p) (\<lambda>(r, p1).
          case r of
            Inl e \<Rightarrow> Some (Inl ErrBegOfDoc, p1)
          | Inr n \<Rightarrow> PrevElement h p1)
      else Some (Inr (node p), p))"

partial_function (option) FirstElementByAtom_loop ::
  "('a, 'b) heap \<Rightarrow> 'b \<Rightarrow> 'a Parser \<Rightarrow> ((error + 'a) \<times> 'a Parser) option" where
  "FirstElementByAtom_loop h a p =
     (if \<not> (isElem (h (node p)) \<and> n_DataAtom (h (node p)) = a) then
        Option.bind (Next h p) (\<lambda>(r, p1).
          case r of
            Inl e \<Rightarrow> Some (Inl e, p1)
          | Inr n \<Rightarrow> FirstElementByAtom_loop h a p1)
      else Some (Inr (node p), p))"

definition FirstElementByAtom ::
  "('a, 'b) heap \<Rightarrow> 'b \<Rightarrow> 'a Parser \<Rightarrow> ((error + 'a) \<times> 'a Parser) option" where
  "FirstElementByAtom h a p =
     (case Reset p of (d, p0) \<Rightarrow>
        Option.bind (Next h p0) (\<lambda>(r, p1).
          case r of
            Inl e \<Rightarrow> Some (Inl e, p1)
          | Inr n \<Rightarrow> FirstElementByAtom_loop h a p1))"

partial_function (option) NextElementByAtom_loop ::
  "('a, 'b) heap \<Rightarrow> 'b \<Rightarrow> 'a Parser \<Rightarrow> ((error + 'a) \<times> 'a Parser) option" where
  "NextElementByAtom_loop h a p =
     (if \<not> (isElem (h (node p)) \<and> n_DataAtom (h (node p)) = a) then
        Option.bind (Next h p) (\<lambda>(r, p1).
          case r of
            Inl e \<Rightarrow> Some (Inl e, p1)
          | Inr n \<Rightarrow> NextElementByAtom_loop h a p1)
      else Some (Inr (node p), p))"

definition NextElementByAtom ::
  "('a, 'b) heap \<Rightarrow> 'b \<Rightarrow> 'a Parser \<Rightarrow> ((error + 'a) \<times> 'a Parser) option" where
  "NextElementByAtom h a p =
     Option.bind (Next h p) (\<lambda>(r, p1).
       case r of
         Inl e \<Rightarrow> Some (Inl e, p1)
       | Inr n \<Rightarrow> NextElementByAtom_loop h a p1)"

text \<open>
  The four conveniences pass a constant of the external atom table, \<^verbatim>\<open>atom.Body\<close>,
  \<^verbatim>\<open>atom.Head\<close> or \<^verbatim>\<open>atom.Meta\<close>; the model takes the constant as its first argument.
\<close>

definition Body :: "'b \<Rightarrow> ('a, 'b) heap \<Rightarrow> 'a Parser \<Rightarrow> ((error + 'a) \<times> 'a Parser) option" where
  "Body atom_Body h p = FirstElementByAtom h atom_Body p"

definition Head :: "'b \<Rightarrow> ('a, 'b) heap \<Rightarrow> 'a Parser \<Rightarrow> ((error + 'a) \<times> 'a Parser) option" where
  "Head atom_Head h p = FirstElementByAtom h atom_Head p"

definition FirstMeta :: "'b \<Rightarrow> ('a, 'b) heap \<Rightarrow> 'a Parser \<Rightarrow> ((error + 'a) \<times> 'a Parser) option" where
  "FirstMeta atom_Meta h p = FirstElementByAtom h atom_Meta p"

definition NextMeta :: "'b \<Rightarrow> ('a, 'b) heap \<Rightarrow> 'a Parser \<Rightarrow> ((error + 'a) \<times> 'a Parser) option" where
  "NextMeta atom_Meta h p = NextElementByAtom h atom_Meta p"

subsection \<open>Well-formed documents\<close>

text \<open>
  The tree that the external parser builds is described by a term: every node carries its
  pointer, its kind, its atom and the list of its children, left to right.
\<close>

datatype ('a, 'b) tree = T 'a NodeType 'b "('a, 'b) tree list"

fun addr :: "('a, 'b) tree \<Rightarrow> 'a" where
  "addr (T a k d cs) = a"

fun children :: "('a, 'b) tree \<Rightarrow> ('a, 'b) tree list" where
  "children (T a k d cs) = cs"

definition first_addr :: "('a, 'b) tree list \<Rightarrow> 'a option" where
  "first_addr cs = (case cs of [] \<Rightarrow> None | c # _ \<Rightarrow> Some (addr c))"

definition last_addr :: "('a, 'b) tree list \<Rightarrow> 'a option" where
  "last_addr cs = (if cs = [] then None else Some (addr (last cs)))"

text \<open>
  \<open>repr h par prv nxt t\<close>: the store holds the tree \<open>t\<close> at the pointer \<open>addr t\<close>, with
  parent \<open>par\<close>, previous sibling \<open>prv\<close> and next sibling \<open>nxt\<close>. This is the invariant
  of the node model: the children of a node are a doubly-linked list, the first-child and
  last-child links point to its two ends, and every child points back to its parent.
\<close>

fun repr :: "('a, 'b) heap \<Rightarrow> 'a option \<Rightarrow> 'a option \<Rightarrow> 'a option \<Rightarrow> ('a, 'b) tree \<Rightarrow> bool"
and repr_sibs :: "('a, 'b) heap \<Rightarrow> 'a option \<Rightarrow> 'a option \<Rightarrow> ('a, 'b) tree list \<Rightarrow> bool" where
  "repr h par prv nxt (T a k d cs) =
     (h a = \<lparr>n_Parent = par, n_FirstChild = first_addr cs, n_LastChild = last_addr cs,
             n_PrevSibling = prv, n_NextSibling = nxt, n_Type = k, n_DataAtom = d\<rparr>
      \<and> repr_sibs h (Some a) None cs)"
| "repr_sibs h par prv [] = True"
| "repr_sibs h par prv (c # cs) =
     (repr h par prv (first_addr cs) c \<and> repr_sibs h par (Some (addr c)) cs)"

text \<open>A document: a tree whose root has no parent and no sibling.\<close>

definition wf_doc :: "('a, 'b) heap \<Rightarrow> ('a, 'b) tree \<Rightarrow> bool" where
  "wf_doc h t = repr h None None None t"

text \<open>
  Document order: the nodes in pre-order, each with its depth, the root of \<open>t\<close> at
  depth \<open>l\<close>.
\<close>

fun preorder :: "('a, 'b) tree \<Rightarrow> int \<Rightarrow> ('a \<times> int) list"
and preorder_sibs :: "('a, 'b) tree list \<Rightarrow> int \<Rightarrow> ('a \<times> int) list" where
  "preorder (T a k d cs) l = (a, l) # preorder_sibs cs (l + 1)"
| "preorder_sibs [] l = []"
| "preorder_sibs (c # cs) l = preorder c l @ preorder_sibs cs l"

definition nodes :: "('a, 'b) tree \<Rightarrow> 'a list" where
  "nodes t = map fst (preorder t 0)"

text \<open>The parser \<open>p\<close> moved to the node and level \<open>x\<close>.\<close>

definition at :: "'a Parser \<Rightarrow> 'a \<times> int \<Rightarrow> 'a Parser" where
  "at p x = p\<lparr>node := fst x, level := snd x\<rparr>"

definition Next_to :: "('a, 'b) heap \<Rightarrow> 'a \<times> int \<Rightarrow> 'a \<times> int \<Rightarrow> bool" where
  "Next_to h x y = (\<forall>p. Next h (at p x) = Some (Inr (fst y), at p y))"

definition Prev_from :: "('a, 'b) heap \<Rightarrow> 'a \<times> int \<Rightarrow> 'a \<times> int \<Rightarrow> bool" where
  "Prev_from h x y = (\<forall>p. Prev h (at p y) = Some (Inr (fst x), at p x))"

definition ascends :: "('a, 'b) heap \<Rightarrow> 'a \<times> int \<Rightarrow> 'a \<times> int \<Rightarrow> bool" where
  "ascends h x y =
     (\<forall>p. nextSiblingAscending_loop h (at p x) = nextSiblingAscending_loop h (at p y))"

definition descends :: "('a, 'b) heap \<Rightarrow> 'a \<times> int \<Rightarrow> 'a \<times> int \<Rightarrow> bool" where
  "descends h x y = (\<forall>p. prevSiblingDescending_loop h (at p x) = Some (at p y))"

text \<open>
  \<open>last_child_chain h s ds\<close>: following the last-child links from \<open>s\<close> visits exactly
  the nodes \<open>ds\<close>, and the last of them has no child.
\<close>

fun last_child_chain :: "('a, 'b) heap \<Rightarrow> 'a \<Rightarrow> 'a list \<Rightarrow> bool" where
  "last_child_chain h s [] = (n_LastChild (h s) = None)"
| "last_child_chain h s (d # ds) = (n_LastChild (h s) = Some d \<and> last_child_chain h d ds)"

subsection \<open>Document order, searches and depth\<close>

text \<open>
  Calling \<open>Next\<close> (or \<open>Prev\<close>) again and again until it fails: the nodes returned by
  the successful calls in order, the error of the failing call and the parser after it.
\<close>

partial_function (option) Next_walk ::
  "('a, 'b) heap \<Rightarrow> 'a Parser \<Rightarrow> ('a list \<times> error \<times> 'a Parser) option" where
  "Next_walk h p =
     Option.bind (Next h p) (\<lambda>(r, p1).
       case r of
         Inl e \<Rightarrow> Some ([], e, p1)
       | Inr n \<Rightarrow> Option.bind (Next_walk h p1) (\<lambda>(ns, e, q). Some (n # ns, e, q)))"

partial_function (option) Prev_walk ::
  "('a, 'b) heap \<Rightarrow> 'a Parser \<Rightarrow> ('a list \<times> error \<times> 'a Parser) option" where
  "Prev_walk h p =
     Option.bind (Prev h p) (\<lambda>(r, p1).
       case r of
         Inl e \<Rightarrow> Some ([], e, p1)
       | Inr n \<Rightarrow> Option.bind (Prev_walk h p1) (\<lambda>(ns, e, q). Some (n # ns, e, q)))"

text \<open>
  The outcome of a search through the positions \<open>zs\<close> in order: the first position that
  satisfies \<open>P\<close> is returned and becomes the current position; when there is none the
  search fails with \<open>e\<close> and the parser stands at \<open>z\<close>.
\<close>

definition found ::
  "('a \<times> int \<Rightarrow> bool) \<Rightarrow> ('a \<times> int) list \<Rightarrow> error \<Rightarrow> 'a \<times> int \<Rightarrow> 'a Parser
   \<Rightarrow> (error + 'a) \<times> 'a Parser" where
  "found P zs e z p =
     (case find P zs of
        None \<Rightarrow> (Inl e, at p z)
      | Some y \<Rightarrow> (Inr (fst y), at p y))"

text \<open>The test of the two searches by atom: an element with the atom \<open>a\<close>.\<close>

definition has_atom :: "('a, 'b) heap \<Rightarrow> 'b \<Rightarrow> 'a \<times> int \<Rightarrow> bool" where
  "has_atom h a y = (isElem (h (fst y)) \<and> n_DataAtom (h (fst y)) = a)"

text \<open>
  The links of the node at position \<open>x\<close> lead to positions of the set \<open>S\<close>, a child one
  level down, the parent one level up and a sibling on the same level; only the root of
  a subtree at level \<open>l0\<close> may point outside, to \<open>par\<close>, \<open>prv\<close> and \<open>nxt\<close>.
\<close>

definition links_in ::
  "('a, 'b) heap \<Rightarrow> ('a \<times> int) set \<Rightarrow> 'a option \<Rightarrow> 'a option \<Rightarrow> 'a option \<Rightarrow> int
   \<Rightarrow> 'a \<times> int \<Rightarrow> bool" where
  "links_in h S par prv nxt l0 x =
     ((\<forall>c. n_FirstChild (h (fst x)) = Some c \<longrightarrow> (c, snd x + 1) \<in> S)
      \<and> (\<forall>c. n_LastChild (h (fst x)) = Some c \<longrightarrow> (c, snd x + 1) \<in> S)
      \<and> (\<forall>q. n_Parent (h (fst x)) = Some q \<longrightarrow>
            (q, snd x - 1) \<in> S \<or> (par = Some q \<and> snd x = l0))
      \<and> (\<forall>s. n_NextSibling (h (fst x)) = Some s \<longrightarrow>
            (s, snd x) \<in> S \<or> (nxt = Some s \<and> snd x = l0))
      \<and> (\<forall>s. n_PrevSibling (h (fst x)) = Some s \<longrightarrow>
            (s, snd x) \<in> S \<or> (prv = Some s \<and> snd x = l0)))"

text \<open>
  The depth of a node in the tree, the root at depth 0, and the invariant of the parser:
  it belongs to the document \<open>t\<close> and its level is the depth of its current node.
\<close>

definition depth_of :: "('a, 'b) tree \<Rightarrow> 'a \<Rightarrow> int option" where
  "depth_of t a = map_of (preorder t 0) a"

definition level_ok :: "('a, 'b) tree \<Rightarrow> 'a Parser \<Rightarrow> bool" where
  "level_ok t p = (doc p = addr t \<and> depth_of t (node p) = Some (level p))"

subsection \<open>An example document\<close>

text \<open>
  The document \<^verbatim>\<open><!DOCTYPE html><html><head><title>t</title></head><body><p>x</p></body></html>\<close>
  with pointers 0 to 8 in document order and the atoms html = 1, head = 2, body = 3,
  title = 4, p = 5.
\<close>

definition mk_Node ::
  "'a option \<Rightarrow> 'a option \<Rightarrow> 'a option \<Rightarrow> 'a option \<Rightarrow> 'a option \<Rightarrow> NodeType \<Rightarrow> 'b
   \<Rightarrow> ('a, 'b) Node" where
  "mk_Node par fc lc ps ns k d =
     \<lparr>n_Parent = par, n_FirstChild = fc, n_LastChild = lc, n_PrevSibling = ps,
      n_NextSibling = ns, n_Type = k, n_DataAtom = d\<rparr>"

definition ex_heap :: "(nat, nat) heap" where
  "ex_heap a =
     (if a = 0 then mk_Node None (Some 1) (Some 2) None None DocumentNode 0
      else if a = 1 then mk_Node (Some 0) None None None (Some 2) DoctypeNode 0
      else if a = 2 then mk_Node (Some 0) (Some 3) (Some 6) (Some 1) None ElementNode 1
      else if a = 3 then mk_Node (Some 2) (Some 4) (Some 4) None (Some 6) ElementNode 2
      else if a = 4 then mk_Node (Some 3) (Some 5) (Some 5) None None ElementNode 4
      else if a = 5 then mk_Node (Some 4) None None None None TextNode 0
      else if a = 6 then mk_Node (Some 2) (Some 7) (Some 7) (Some 3) None ElementNode 3
      else if a = 7 then mk_Node (Some 6) (Some 8) (Some 8) None None ElementNode 5
      else mk_Node (Some 7) None None None None TextNode 0)"

definition ex_tree :: "(nat, nat) tree" where
  "ex_tree =
     T 0 DocumentNode 0
       [T 1 DoctypeNode 0 [],
        T 2 ElementNode 1
          [T 3 ElementNode 2 [T 4 ElementNode 4 [T 5 TextNode 0 []]],
           T 6 ElementNode 3 [T 7 ElementNode 5 [T 8 TextNode 0 []]]]]"

definition ex_at :: "nat \<Rightarrow> int \<Rightarrow> nat Parser" where
  "ex_at a l = \<lparr>doc = 0, node = a, level = l\<rparr>"


text \<open>The same document followed by a comment, pointer 9, after the \<^verbatim>\<open>html\<close> element.\<close>

definition ex_heap2 :: "(nat, nat) heap" where
  "ex_heap2 a =
     (if a = 0 then mk_Node None (Some 1) (Some 9) None None DocumentNode 0
      else if a = 2 then mk_Node (Some 0) (Some 3) (Some 6) (Some 1) (Some 9) ElementNode 1
      else if a = 9 then mk_Node (Some 0) None None (Some 2) None CommentNode 0
      else ex_heap a)"

definition ex_tree2 :: "(nat, nat) tree" where
  "ex_tree2 =
     T 0 DocumentNode 0
       [T 1 DoctypeNode 0 [],
        T 2 ElementNode 1
          [T 3 ElementNode 2 [T 4 ElementNode 4 [T 5 TextNode 0 []]],
           T 6 ElementNode 3 [T 7 ElementNode 5 [T 8 TextNode 0 []]]],
        T 9 CommentNode 0 []]"

section \<open>Properties\<close>

lemmas ex_defs = ex_heap_def ex_at_def mk_Node_def

lemmas move_defs = NextSibling_def PrevSibling_def Parent_def FirstChild_def LastChild_def

subsection \<open>Traversal of a well-formed document\<close>

lemma at_simps [simp]:
  "node (at p x) = fst x" "level (at p x) = snd x" "doc (at p x) = doc p"
  "at (at p x) y = at p y"
  "(at p x)\<lparr>node := a\<rparr> = at p (a, snd x)"
  "(at p x)\<lparr>node := a, level := l\<rparr> = at p (a, l)"
  "(at p x)\<lparr>level := l\<rparr> = at p (fst x, l)"
  "at p (node p, level p) = p"
  by (simp_all add: at_def)

lemma repr_root:
  assumes "repr h par prv nxt t"
  shows "n_Parent (h (addr t)) = par" "n_PrevSibling (h (addr t)) = prv"
    "n_NextSibling (h (addr t)) = nxt" "n_FirstChild (h (addr t)) = first_addr (children t)"
    "n_LastChild (h (addr t)) = last_addr (children t)"
    "repr_sibs h (Some (addr t)) None (children t)"
  using assms by (cases t; simp)+

lemma preorder_nonempty [simp]: "preorder t l \<noteq> []"
  by (cases t) simp

lemma hd_preorder [simp]: "hd (preorder t l) = (addr t, l)"
  by (cases t) simp

lemma preorder_sibs_nonempty [simp]: "(preorder_sibs cs l = []) = (cs = [])"
  by (cases cs) simp_all

lemma hd_preorder_sibs: "cs \<noteq> [] \<Longrightarrow> hd (preorder_sibs cs l) = (addr (hd cs), l)"
  by (cases cs) simp_all

lemma first_addr_hd: "cs \<noteq> [] \<Longrightarrow> first_addr cs = Some (addr (hd cs))"
  by (cases cs) (simp_all add: first_addr_def)

lemma nsa_sibling:
  "n_NextSibling (h (fst x)) = Some s \<Longrightarrow>
   nextSiblingAscending_loop h (at p x) = Some (Some s, at p (s, snd x))"
  by (subst nextSiblingAscending_loop.simps) (simp add: NextSibling_def)

lemma nsa_parent:
  "n_NextSibling (h (fst x)) = None \<Longrightarrow> n_Parent (h (fst x)) = Some q \<Longrightarrow>
   nextSiblingAscending_loop h (at p x) = nextSiblingAscending_loop h (at p (q, snd x - 1))"
  by (subst nextSiblingAscending_loop.simps) (simp add: NextSibling_def Parent_def)

lemma nsa_root:
  "n_NextSibling (h (fst x)) = None \<Longrightarrow> n_Parent (h (fst x)) = None \<Longrightarrow>
   nextSiblingAscending_loop h (at p x) = Some (None, at p x)"
  by (subst nextSiblingAscending_loop.simps) (simp add: NextSibling_def Parent_def)

lemma Next_child:
  "n_FirstChild (h (fst x)) = Some c \<Longrightarrow> Next h (at p x) = Some (Inr c, at p (c, snd x + 1))"
  by (simp add: Next_def FirstChild_def)

lemma Next_leaf_sibling:
  "n_FirstChild (h (fst x)) = None \<Longrightarrow>
   nextSiblingAscending_loop h (at p x) = Some (Some s, at p y) \<Longrightarrow>
   Next h (at p x) = Some (Inr (fst y), at p y)"
  by (simp add: Next_def FirstChild_def nextSiblingAscending_def)

lemma Next_leaf_end:
  "n_FirstChild (h (fst x)) = None \<Longrightarrow>
   nextSiblingAscending_loop h (at p x) = Some (None, at p y) \<Longrightarrow>
   Next h (at p x) = Some (Inl ErrEndOfDoc, at p x)"
  by (cases x) (simp add: Next_def FirstChild_def nextSiblingAscending_def)

lemma Next_traversal:
  "repr h par prv nxt t \<Longrightarrow>
     (\<forall>l. successively (Next_to h) (preorder t l)
          \<and> n_FirstChild (h (fst (last (preorder t l)))) = None
          \<and> ascends h (last (preorder t l)) (addr t, l))"
  "repr_sibs h par prv cs \<Longrightarrow>
     (\<forall>a l. par = Some a \<longrightarrow> cs \<noteq> [] \<longrightarrow>
          successively (Next_to h) (preorder_sibs cs l)
          \<and> n_FirstChild (h (fst (last (preorder_sibs cs l)))) = None
          \<and> ascends h (last (preorder_sibs cs l)) (a, l - 1))"
proof (induction h par prv nxt t and h par prv cs rule: repr_repr_sibs.induct)
  case (1 h par prv nxt a k d cs)
  from "1.prems" have ha: "n_FirstChild (h a) = first_addr cs"
    and sibs: "repr_sibs h (Some a) None cs" by simp_all
  show ?case
  proof (cases "cs = []")
    case True
    with ha show ?thesis by (simp add: first_addr_def ascends_def)
  next
    case False
    from "1.IH"[OF sibs] False have IH: "\<And>l. successively (Next_to h) (preorder_sibs cs l)
          \<and> n_FirstChild (h (fst (last (preorder_sibs cs l)))) = None
          \<and> ascends h (last (preorder_sibs cs l)) (a, l - 1)" by simp
    have step: "Next_to h (a, l) (hd (preorder_sibs cs (l + 1)))" for l
      using ha False by (simp add: Next_to_def hd_preorder_sibs first_addr_hd Next_child)
    show ?thesis
    proof
      fix l
      from IH[of "l + 1"] step[of l] False
      show "successively (Next_to h) (preorder (T a k d cs) l)
          \<and> n_FirstChild (h (fst (last (preorder (T a k d cs) l)))) = None
          \<and> ascends h (last (preorder (T a k d cs) l)) (addr (T a k d cs), l)"
        by (simp add: successively_Cons)
    qed
  qed
next
  case (2 h par prv)
  show ?case by simp
next
  case (3 h par prv c cs)
  from "3.prems" have rc: "repr h par prv (first_addr cs) c"
    and rs: "repr_sibs h par (Some (addr c)) cs" by simp_all
  note IHc = "3.IH"(1)[OF rc]
  show ?case
  proof (intro allI impI)
    fix a l
    assume par: "par = Some a" and "c # cs \<noteq> []"
    from IHc have sc: "successively (Next_to h) (preorder c l)"
      and fc: "n_FirstChild (h (fst (last (preorder c l)))) = None"
      and ac: "ascends h (last (preorder c l)) (addr c, l)" by simp_all
    show "successively (Next_to h) (preorder_sibs (c # cs) l)
          \<and> n_FirstChild (h (fst (last (preorder_sibs (c # cs) l)))) = None
          \<and> ascends h (last (preorder_sibs (c # cs) l)) (a, l - 1)"
    proof (cases "cs = []")
      case True
      have "nextSiblingAscending_loop h (at p (addr c, l)) =
            nextSiblingAscending_loop h (at p (a, l - 1))" for p
        using repr_root(1,3)[OF rc] True par
        by (simp add: nsa_parent first_addr_def)
      with ac have "ascends h (last (preorder c l)) (a, l - 1)"
        by (simp add: ascends_def)
      with True sc fc show ?thesis by simp
    next
      case False
      from "3.IH"(2)[OF rs] par False
      have ss: "successively (Next_to h) (preorder_sibs cs l)"
        and fs: "n_FirstChild (h (fst (last (preorder_sibs cs l)))) = None"
        and as: "ascends h (last (preorder_sibs cs l)) (a, l - 1)" by simp_all
      have "nextSiblingAscending_loop h (at p (last (preorder c l))) =
            Some (Some (addr (hd cs)), at p (addr (hd cs), l))" for p
        using ac repr_root(3)[OF rc] False
        by (simp add: ascends_def nsa_sibling first_addr_hd)
      then have "Next_to h (last (preorder c l)) (hd (preorder_sibs cs l))"
        using fc False by (simp add: Next_to_def hd_preorder_sibs Next_leaf_sibling)
      with sc ss fs as False show ?thesis
        by (simp add: successively_append_iff)
    qed
  qed
qed

lemma psd_child:
  "n_LastChild (h a) = Some c \<Longrightarrow>
   prevSiblingDescending_loop h (at p (a, l)) = prevSiblingDescending_loop h (at p (c, l + 1))"
  by (subst prevSiblingDescending_loop.simps) (simp add: LastChild_def)

lemma psd_leaf:
  "n_LastChild (h a) = None \<Longrightarrow> prevSiblingDescending_loop h (at p (a, l)) = Some (at p (a, l))"
  by (subst prevSiblingDescending_loop.simps) (simp add: LastChild_def)

lemma Prev_sibling:
  "n_PrevSibling (h a) = Some s \<Longrightarrow>
   prevSiblingDescending_loop h (at p (s, l)) = Some (at p y) \<Longrightarrow>
   Prev h (at p (a, l)) = Some (Inr (fst y), at p y)"
  by (simp add: Prev_def prevSiblingDescending_def PrevSibling_def)

lemma Prev_parent:
  "n_PrevSibling (h a) = None \<Longrightarrow> n_Parent (h a) = Some q \<Longrightarrow>
   Prev h (at p (a, l)) = Some (Inr q, at p (q, l - 1))"
  by (simp add: Prev_def prevSiblingDescending_def PrevSibling_def Parent_def)

lemma Prev_root:
  "n_PrevSibling (h a) = None \<Longrightarrow> n_Parent (h a) = None \<Longrightarrow>
   Prev h (at p (a, l)) = Some (Inl ErrBegOfDoc, at p (a, l))"
  by (simp add: Prev_def prevSiblingDescending_def PrevSibling_def Parent_def)

lemma repr_sibs_hd:
  assumes "repr_sibs h par prv cs" "cs \<noteq> []"
  shows "n_PrevSibling (h (addr (hd cs))) = prv" "n_Parent (h (addr (hd cs))) = par"
proof -
  from assms(2) obtain c cs' where cs: "cs = c # cs'" by (cases cs) auto
  with assms(1) have r: "repr h par prv (first_addr cs') c" by simp
  from repr_root(2)[OF r] cs show "n_PrevSibling (h (addr (hd cs))) = prv" by simp
  from repr_root(1)[OF r] cs show "n_Parent (h (addr (hd cs))) = par" by simp
qed

lemma last_addr_last: "cs \<noteq> [] \<Longrightarrow> last_addr cs = Some (addr (last cs))"
  by (simp add: last_addr_def)

lemma descends_leaf: "n_LastChild (h a) = None \<Longrightarrow> descends h (a, l) (a, l)"
  unfolding descends_def by (intro allI psd_leaf)

lemma descends_child:
  assumes "n_LastChild (h a) = Some c" "descends h (c, l + 1) y"
  shows "descends h (a, l) y"
  unfolding descends_def
proof
  fix p
  from assms(2) have "prevSiblingDescending_loop h (at p (c, l + 1)) = Some (at p y)"
    unfolding descends_def by blast
  with psd_child[of h a c p l, OF assms(1)]
  show "prevSiblingDescending_loop h (at p (a, l)) = Some (at p y)" by simp
qed

lemma Prev_from_parent:
  assumes "n_PrevSibling (h a) = None" "n_Parent (h a) = Some q"
  shows "Prev_from h (q, l) (a, l + 1)"
  unfolding Prev_from_def
proof
  fix p
  from Prev_parent[of h a q p "l + 1", OF assms]
  show "Prev h (at p (a, l + 1)) = Some (Inr (fst (q, l)), at p (q, l))" by simp
qed

lemma Prev_from_sibling:
  assumes "n_PrevSibling (h a) = Some s" "descends h (s, l) y"
  shows "Prev_from h y (a, l)"
  unfolding Prev_from_def
proof
  fix p
  from assms(2) have "prevSiblingDescending_loop h (at p (s, l)) = Some (at p y)"
    unfolding descends_def by blast
  from Prev_sibling[of h a s p l y, OF assms(1) this]
  show "Prev h (at p (a, l)) = Some (Inr (fst y), at p y)" .
qed

lemma Prev_traversal:
  "repr h par prv nxt t \<Longrightarrow>
     (\<forall>l. successively (Prev_from h) (preorder t l)
          \<and> descends h (addr t, l) (last (preorder t l)))"
  "repr_sibs h par prv cs \<Longrightarrow>
     (\<forall>l. cs \<noteq> [] \<longrightarrow>
          successively (Prev_from h) (preorder_sibs cs l)
          \<and> descends h (addr (last cs), l) (last (preorder_sibs cs l)))"
proof (induction h par prv nxt t and h par prv cs rule: repr_repr_sibs.induct)
  case (1 h par prv nxt a k d cs)
  from "1.prems" have ha: "n_LastChild (h a) = last_addr cs"
    and sibs: "repr_sibs h (Some a) None cs" by simp_all
  show ?case
  proof (cases "cs = []")
    case True
    with ha have "n_LastChild (h a) = None" by (simp add: last_addr_def)
    from descends_leaf[of h a, OF this] True show ?thesis by simp
  next
    case False
    show ?thesis
    proof
      fix l
      from "1.IH"[OF sibs] False
      have ss: "successively (Prev_from h) (preorder_sibs cs (l + 1))"
        and ds: "descends h (addr (last cs), l + 1) (last (preorder_sibs cs (l + 1)))"
        by simp_all
      have "Prev_from h (a, l) (addr (hd cs), l + 1)"
        by (rule Prev_from_parent[of h "addr (hd cs)" a l, OF repr_sibs_hd[OF sibs False]])
      then have step: "Prev_from h (a, l) (hd (preorder_sibs cs (l + 1)))"
        using False by (simp add: hd_preorder_sibs)
      have "n_LastChild (h a) = Some (addr (last cs))"
        using ha False by (simp add: last_addr_last)
      from descends_child[of h a "addr (last cs)" l, OF this ds]
      have "descends h (a, l) (last (preorder_sibs cs (l + 1)))" .
      with ss step False
      show "successively (Prev_from h) (preorder (T a k d cs) l)
          \<and> descends h (addr (T a k d cs), l) (last (preorder (T a k d cs) l))"
        by (simp add: successively_Cons)
    qed
  qed
next
  case (2 h par prv)
  show ?case by simp
next
  case (3 h par prv c cs)
  from "3.prems" have rc: "repr h par prv (first_addr cs) c"
    and rs: "repr_sibs h par (Some (addr c)) cs" by simp_all
  note IHc = "3.IH"(1)[OF rc]
  show ?case
  proof (intro allI impI)
    fix l
    from IHc have sc: "successively (Prev_from h) (preorder c l)"
      and dc: "descends h (addr c, l) (last (preorder c l))" by simp_all
    show "successively (Prev_from h) (preorder_sibs (c # cs) l)
          \<and> descends h (addr (last (c # cs)), l) (last (preorder_sibs (c # cs) l))"
    proof (cases "cs = []")
      case True
      with sc dc show ?thesis by simp
    next
      case False
      from "3.IH"(2)[OF rs] False
      have ss: "successively (Prev_from h) (preorder_sibs cs l)"
        and ds: "descends h (addr (last cs), l) (last (preorder_sibs cs l))" by simp_all
      have "Prev_from h (last (preorder c l)) (addr (hd cs), l)"
        by (rule Prev_from_sibling[of h "addr (hd cs)" "addr c" l, OF repr_sibs_hd(1)[OF rs False] dc])
      then have "Prev_from h (last (preorder c l)) (hd (preorder_sibs cs l))"
        using False by (simp add: hd_preorder_sibs)
      with sc ss ds False show ?thesis
        by (simp add: successively_append_iff)
    qed
  qed
qed

lemma wf_doc_Next:
  assumes "wf_doc h t"
  shows "successively (Next_to h) (preorder t 0)"
    and "Next h (at p (last (preorder t 0))) = Some (Inl ErrEndOfDoc, at p (last (preorder t 0)))"
proof -
  from assms have r: "repr h None None None t" by (simp add: wf_doc_def)
  from Next_traversal(1)[OF r] show "successively (Next_to h) (preorder t 0)" by simp
  from Next_traversal(1)[OF r]
  have fc: "n_FirstChild (h (fst (last (preorder t 0)))) = None"
    and asc: "ascends h (last (preorder t 0)) (addr t, 0)" by simp_all
  have "nextSiblingAscending_loop h (at p (addr t, 0)) = Some (None, at p (addr t, 0))"
    using repr_root(1,3)[OF r] by (simp add: nsa_root)
  with asc have "nextSiblingAscending_loop h (at p (last (preorder t 0))) =
      Some (None, at p (addr t, 0))" by (simp add: ascends_def)
  from Next_leaf_end[OF fc this]
  show "Next h (at p (last (preorder t 0))) = Some (Inl ErrEndOfDoc, at p (last (preorder t 0)))" .
qed

lemma wf_doc_Prev:
  assumes "wf_doc h t"
  shows "successively (Prev_from h) (preorder t 0)"
    and "Prev h (at p (addr t, 0)) = Some (Inl ErrBegOfDoc, at p (addr t, 0))"
proof -
  from assms have r: "repr h None None None t" by (simp add: wf_doc_def)
  from Prev_traversal(1)[OF r] show "successively (Prev_from h) (preorder t 0)" by simp
  show "Prev h (at p (addr t, 0)) = Some (Inl ErrBegOfDoc, at p (addr t, 0))"
    using repr_root(1,2)[OF r] by (simp add: Prev_root)
qed

lemma preorder_shift:
  "preorder t (l + k) = map (\<lambda>x. (fst x, snd x + k)) (preorder t l)"
  "preorder_sibs cs (l + k) = map (\<lambda>x. (fst x, snd x + k)) (preorder_sibs cs l)"
  for t :: "('a, 'b) tree" and cs :: "('a, 'b) tree list"
proof (induction t l and cs l rule: preorder_preorder_sibs.induct)
  case (1 a k' d cs l)
  have "preorder_sibs cs (l + k + 1) = preorder_sibs cs (l + 1 + k)"
    by (simp add: ac_simps)
  with 1 show ?case by simp
qed simp_all

lemma preorder_at_level:
  "preorder t l = map (\<lambda>x. (fst x, snd x + l)) (preorder t 0)"
  using preorder_shift(1)[of t 0 l] by simp

lemma Prev_node_step:
  assumes r: "repr h par prv nxt t" and i: "Suc i < length (preorder t 0)"
  shows "\<exists>m'. Prev h (at p (fst (preorder t 0 ! Suc i), m)) =
              Some (Inr (fst (preorder t 0 ! i)), at p (fst (preorder t 0 ! i), m'))"
proof -
  define l where "l = m - snd (preorder t 0 ! Suc i)"
  have len: "length (preorder t l) = length (preorder t 0)"
    by (subst preorder_at_level) simp
  from Prev_traversal(1)[OF r] have "successively (Prev_from h) (preorder t l)" by simp
  from successively_nth[OF this] i len
  have "Prev_from h (preorder t l ! i) (preorder t l ! Suc i)" by simp
  moreover have "preorder t l ! Suc i = (fst (preorder t 0 ! Suc i), m)"
    using i by (subst preorder_at_level) (simp add: l_def)
  moreover have "preorder t l ! i = (fst (preorder t 0 ! i), snd (preorder t 0 ! i) + l)"
    using i by (subst preorder_at_level) simp
  ultimately show ?thesis by (auto simp: Prev_from_def)
qed

lemma nodes_distinct_aux:
  assumes r: "repr h None None None t"
  shows "i < j \<Longrightarrow> j < length (preorder t 0) \<Longrightarrow>
         fst (preorder t 0 ! i) \<noteq> fst (preorder t 0 ! j)"
proof (induction i arbitrary: j)
  case 0
  then obtain j' where j: "j = Suc j'" by (cases j) auto
  from Prev_node_step[OF r, of j' undefined 0] "0.prems" j
  obtain m' where s: "Prev h (at undefined (fst (preorder t 0 ! j), 0)) =
       Some (Inr (fst (preorder t 0 ! j')), at undefined (fst (preorder t 0 ! j'), m'))"
    by auto
  have root: "preorder t 0 ! 0 = (addr t, 0)"
    by (cases t) simp
  have "Prev h (at undefined (addr t, 0)) = Some (Inl ErrBegOfDoc, at undefined (addr t, 0))"
    using repr_root(1,2)[OF r] by (simp add: Prev_root)
  with s root show ?case by auto
next
  case (Suc i)
  then obtain j' where j: "j = Suc j'" and ij: "i < j'" by (cases j) auto
  from Suc.prems j have j'len: "j' < length (preorder t 0)" by simp
  show ?case
  proof
    assume eq: "fst (preorder t 0 ! Suc i) = fst (preorder t 0 ! j)"
    from Prev_node_step[OF r, of i undefined 0] Suc.prems
    obtain m1 where s1: "Prev h (at undefined (fst (preorder t 0 ! Suc i), 0)) =
       Some (Inr (fst (preorder t 0 ! i)), at undefined (fst (preorder t 0 ! i), m1))"
      by auto
    from Prev_node_step[OF r, of j' undefined 0] Suc.prems j
    obtain m2 where s2: "Prev h (at undefined (fst (preorder t 0 ! j), 0)) =
       Some (Inr (fst (preorder t 0 ! j')), at undefined (fst (preorder t 0 ! j'), m2))"
      by auto
    from s1 s2 eq have "fst (preorder t 0 ! i) = fst (preorder t 0 ! j')" by simp
    with Suc.IH[OF ij j'len] show False by simp
  qed
qed

lemma wf_doc_distinct:
  assumes "wf_doc h t"
  shows "distinct (nodes t)"
proof -
  from assms have r: "repr h None None None t" by (simp add: wf_doc_def)
  show ?thesis
    unfolding nodes_def distinct_conv_nth
  proof (intro allI impI)
    fix i j
    assume i: "i < length (map fst (preorder t 0))" and j: "j < length (map fst (preorder t 0))"
      and ne: "i \<noteq> j"
    show "map fst (preorder t 0) ! i \<noteq> map fst (preorder t 0) ! j"
    proof (cases "i < j")
      case True
      from nodes_distinct_aux[OF r True] i j show ?thesis by simp
    next
      case False
      with ne have "j < i" by simp
      from nodes_distinct_aux[OF r this] i j show ?thesis by (simp add: eq_commute)
    qed
  qed
qed

lemma search_loop:
  assumes unfold: "\<And>p. F p =
      (if \<not> C (node p) then
         Option.bind (S p) (\<lambda>(r, p1). case r of Inl e \<Rightarrow> Some (Inl (E e), p1) | Inr n \<Rightarrow> F p1)
       else Some (Inr (node p), p))"
    and steps: "successively (\<lambda>x y. \<forall>p. S (at p x) = Some (Inr (fst y), at p y)) (x # ys)"
    and stop: "\<And>p. S (at p (last (x # ys))) = Some (Inl e0, at p (last (x # ys)))"
  shows "F (at p x) = Some (found (\<lambda>y. C (fst y)) (x # ys) (E e0) (last (x # ys)) p)"
  using steps stop
proof (induction ys arbitrary: x)
  case Nil
  show ?case
    using Nil.prems(2)[of p] by (subst unfold) (cases x; simp add: found_def)
next
  case (Cons y ys)
  from Cons.prems(1) have step: "S (at p x) = Some (Inr (fst y), at p y)"
    and rest: "successively (\<lambda>x y. \<forall>p. S (at p x) = Some (Inr (fst y), at p y)) (y # ys)"
    by simp_all
  from Cons.prems(2) have stop': "\<And>p. S (at p (last (y # ys))) = Some (Inl e0, at p (last (y # ys)))"
    by simp
  from Cons.IH[OF rest stop'] step show ?case
    by (subst unfold) (cases x; simp add: found_def)
qed

lemma walk_loop:
  assumes unfold: "\<And>p. W p =
      Option.bind (S p) (\<lambda>(r, p1).
        case r of
          Inl e \<Rightarrow> Some ([], e, p1)
        | Inr n \<Rightarrow> Option.bind (W p1) (\<lambda>(ns, e, q). Some (n # ns, e, q)))"
    and steps: "successively (\<lambda>x y. \<forall>p. S (at p x) = Some (Inr (fst y), at p y)) (x # ys)"
    and stop: "\<And>p. S (at p (last (x # ys))) = Some (Inl e0, at p (last (x # ys)))"
  shows "W (at p x) = Some (map fst ys, e0, at p (last (x # ys)))"
  using steps stop
proof (induction ys arbitrary: x)
  case Nil
  show ?case
    using Nil.prems(2)[of p] by (subst unfold) simp
next
  case (Cons y ys)
  from Cons.prems(1) have step: "S (at p x) = Some (Inr (fst y), at p y)"
    and rest: "successively (\<lambda>x y. \<forall>p. S (at p x) = Some (Inr (fst y), at p y)) (y # ys)"
    by simp_all
  from Cons.prems(2) have stop': "\<And>p. S (at p (last (y # ys))) = Some (Inl e0, at p (last (y # ys)))"
    by simp
  from Cons.IH[OF rest stop'] step show ?case
    by (subst unfold) simp
qed

lemma wf_doc_forward:
  assumes wf: "wf_doc h t" and L: "preorder t 0 = xs @ x # ys"
  shows "successively (\<lambda>x y. \<forall>p. Next h (at p x) = Some (Inr (fst y), at p y)) (x # ys)"
    and "Next h (at p (last (x # ys))) = Some (Inl ErrEndOfDoc, at p (last (x # ys)))"
proof -
  from wf_doc_Next(1)[OF wf] L have "successively (Next_to h) (x # ys)"
    by (simp add: successively_append_iff)
  then show "successively (\<lambda>x y. \<forall>p. Next h (at p x) = Some (Inr (fst y), at p y)) (x # ys)"
    by (rule successively_mono) (simp add: Next_to_def)
  from L have "last (preorder t 0) = last (x # ys)" by simp
  with wf_doc_Next(2)[OF wf, of p]
  show "Next h (at p (last (x # ys))) = Some (Inl ErrEndOfDoc, at p (last (x # ys)))" by simp
qed

lemma wf_doc_backward:
  assumes wf: "wf_doc h t" and L: "preorder t 0 = xs @ x # ys"
  shows "successively (\<lambda>x y. \<forall>p. Prev h (at p x) = Some (Inr (fst y), at p y)) (x # rev xs)"
    and "Prev h (at p (last (x # rev xs))) = Some (Inl ErrBegOfDoc, at p (last (x # rev xs)))"
    and "last (x # rev xs) = (addr t, 0)"
proof -
  from wf_doc_Prev(1)[OF wf] have "successively (\<lambda>x y. Prev_from h y x) (rev (preorder t 0))"
    by (simp add: successively_rev)
  with L have "successively (\<lambda>x y. Prev_from h y x) (x # rev xs)"
    by (simp add: successively_append_iff)
  then show "successively (\<lambda>x y. \<forall>p. Prev h (at p x) = Some (Inr (fst y), at p y)) (x # rev xs)"
    by (rule successively_mono) (simp add: Prev_from_def)
  from L have "hd (preorder t 0) = hd (xs @ [x])" by (cases xs) simp_all
  then show e: "last (x # rev xs) = (addr t, 0)"
    by (cases xs) (simp_all add: last_rev)
  from wf_doc_Prev(2)[OF wf, of p] e
  show "Prev h (at p (last (x # rev xs))) = Some (Inl ErrBegOfDoc, at p (last (x # rev xs)))"
    by simp
qed

lemma hd_in_preorder_sibs: "cs \<noteq> [] \<Longrightarrow> (addr (hd cs), l) \<in> set (preorder_sibs cs l)"
  using hd_preorder_sibs[of cs l] hd_in_set[of "preorder_sibs cs l"] by simp

lemma root_in_preorder: "(addr t, l) \<in> set (preorder t l)"
  by (cases t) simp

lemma last_in_preorder_sibs: "cs \<noteq> [] \<Longrightarrow> (addr (last cs), l) \<in> set (preorder_sibs cs l)"
  by (induction cs) (auto simp: root_in_preorder)

lemma links_in_root:
  assumes "repr h par prv nxt (T a k d cs)"
  shows "links_in h (insert (a, l0) (set (preorder_sibs cs (l0 + 1)))) par prv nxt l0 (a, l0)"
proof -
  from assms have ha: "n_FirstChild (h a) = first_addr cs" "n_LastChild (h a) = last_addr cs"
    "n_Parent (h a) = par" "n_NextSibling (h a) = nxt" "n_PrevSibling (h a) = prv"
    by simp_all
  have "first_addr cs = Some c \<Longrightarrow> (c, l0 + 1) \<in> set (preorder_sibs cs (l0 + 1))" for c
    using hd_in_preorder_sibs[of cs "l0 + 1"]
    by (cases cs) (simp_all add: first_addr_def)
  moreover have "last_addr cs = Some c \<Longrightarrow> (c, l0 + 1) \<in> set (preorder_sibs cs (l0 + 1))" for c
    using last_in_preorder_sibs[of cs "l0 + 1"]
    by (cases "cs = []") (simp_all add: last_addr_def)
  ultimately show ?thesis
    using ha by (simp add: links_in_def)
qed

lemma links_in_child:
  assumes "links_in h S (Some a) None None (l0 + 1) x"
  shows "links_in h (insert (a, l0) S) par prv nxt l0 x"
  using assms unfolding links_in_def by auto

lemma links_in_first:
  assumes "links_in h S par prv (first_addr cs) l0 x"
  shows "links_in h (S \<union> set (preorder_sibs cs l0)) par prv None l0 x"
proof -
  have "first_addr cs = Some s \<Longrightarrow> (s, l0) \<in> set (preorder_sibs cs l0)" for s
    using hd_in_preorder_sibs[of cs l0] by (cases cs) (simp_all add: first_addr_def)
  with assms show ?thesis unfolding links_in_def by auto
qed

lemma links_in_rest:
  assumes "links_in h S par (Some (addr c)) None l0 x"
  shows "links_in h (set (preorder c l0) \<union> S) par prv None l0 x"
  using assms root_in_preorder[of c l0] unfolding links_in_def by auto

lemma links_closed:
  "repr h par prv nxt t \<Longrightarrow>
     (\<forall>l0. \<forall>x\<in>set (preorder t l0). links_in h (set (preorder t l0)) par prv nxt l0 x)"
  "repr_sibs h par prv cs \<Longrightarrow>
     (\<forall>l0. \<forall>x\<in>set (preorder_sibs cs l0).
        links_in h (set (preorder_sibs cs l0)) par prv None l0 x)"
proof (induction h par prv nxt t and h par prv cs rule: repr_repr_sibs.induct)
  case (1 h par prv nxt a k d cs)
  from "1.prems" have sibs: "repr_sibs h (Some a) None cs" by simp
  show ?case
  proof (intro allI ballI)
    fix l0 x
    assume x: "x \<in> set (preorder (T a k d cs) l0)"
    show "links_in h (set (preorder (T a k d cs) l0)) par prv nxt l0 x"
    proof (cases "x = (a, l0)")
      case True
      with links_in_root[OF "1.prems", of l0] show ?thesis by simp
    next
      case False
      with x have "x \<in> set (preorder_sibs cs (l0 + 1))" by simp
      with "1.IH"[OF sibs]
      have "links_in h (set (preorder_sibs cs (l0 + 1))) (Some a) None None (l0 + 1) x"
        by blast
      from links_in_child[OF this] show ?thesis by simp
    qed
  qed
next
  case (2 h par prv)
  show ?case by simp
next
  case (3 h par prv c cs)
  from "3.prems" have rc: "repr h par prv (first_addr cs) c"
    and rs: "repr_sibs h par (Some (addr c)) cs" by simp_all
  show ?case
  proof (intro allI ballI)
    fix l0 x
    assume "x \<in> set (preorder_sibs (c # cs) l0)"
    then consider "x \<in> set (preorder c l0)" | "x \<in> set (preorder_sibs cs l0)" by auto
    then show "links_in h (set (preorder_sibs (c # cs) l0)) par prv None l0 x"
    proof cases
      case 1
      with "3.IH"(1)[OF rc]
      have "links_in h (set (preorder c l0)) par prv (first_addr cs) l0 x" by blast
      from links_in_first[OF this] show ?thesis by simp
    next
      case 2
      with "3.IH"(2)[OF rs]
      have "links_in h (set (preorder_sibs cs l0)) par (Some (addr c)) None l0 x" by blast
      from links_in_rest[OF this] show ?thesis by simp
    qed
  qed
qed

lemma wf_doc_links:
  assumes "wf_doc h t" "(a, l) \<in> set (preorder t 0)"
  shows "n_FirstChild (h a) = Some c \<Longrightarrow> (c, l + 1) \<in> set (preorder t 0)"
    and "n_LastChild (h a) = Some c \<Longrightarrow> (c, l + 1) \<in> set (preorder t 0)"
    and "n_Parent (h a) = Some c \<Longrightarrow> (c, l - 1) \<in> set (preorder t 0)"
    and "n_NextSibling (h a) = Some c \<Longrightarrow> (c, l) \<in> set (preorder t 0)"
    and "n_PrevSibling (h a) = Some c \<Longrightarrow> (c, l) \<in> set (preorder t 0)"
proof -
  from assms(1) have "repr h None None None t" by (simp add: wf_doc_def)
  from links_closed(1)[OF this] assms(2)
  have li: "links_in h (set (preorder t 0)) None None None 0 (a, l)" by blast
  show "n_FirstChild (h a) = Some c \<Longrightarrow> (c, l + 1) \<in> set (preorder t 0)"
    using li by (simp add: links_in_def)
  show "n_LastChild (h a) = Some c \<Longrightarrow> (c, l + 1) \<in> set (preorder t 0)"
    using li by (simp add: links_in_def)
  show "n_Parent (h a) = Some c \<Longrightarrow> (c, l - 1) \<in> set (preorder t 0)"
    using li by (simp add: links_in_def)
  show "n_NextSibling (h a) = Some c \<Longrightarrow> (c, l) \<in> set (preorder t 0)"
    using li by (simp add: links_in_def)
  show "n_PrevSibling (h a) = Some c \<Longrightarrow> (c, l) \<in> set (preorder t 0)"
    using li by (simp add: links_in_def)
qed

lemma wf_ex: "wf_doc ex_heap ex_tree"
  by (simp add: wf_doc_def ex_tree_def ex_heap_def mk_Node_def first_addr_def last_addr_def)

lemma wf_ex2: "wf_doc ex_heap2 ex_tree2"
  by (simp add: wf_doc_def ex_tree2_def ex_heap2_def ex_heap_def mk_Node_def first_addr_def last_addr_def)

lemma Reset_at: "doc p = addr t \<Longrightarrow> snd (Reset p) = at p (addr t, 0)"
  by (simp add: Reset_def at_def)

lemma preorder_root_tl: "preorder t 0 = [] @ (addr t, 0) # tl (preorder t 0)"
  by (cases t) simp

lemma rev_butlast_tl: "rev (butlast xs) = tl (rev xs)"
  by (metis butlast_rev rev_rev_ident)

lemma found_Nil [simp]: "found P [] e z p = (Inl e, at p z)"
  by (simp add: found_def)

lemma found_none: "\<forall>y\<in>set zs. \<not> P y \<Longrightarrow> found P zs e z p = (Inl e, at p z)"
  by (induction zs) (simp_all add: found_def)

lemma found_Inr:
  "found P zs e z p = (Inr n, p') \<Longrightarrow> \<exists>y\<in>set zs. P y \<and> n = fst y \<and> p' = at p y"
  by (auto simp: found_def find_Some_iff split: option.splits)

lemma distinct_split_later:
  assumes "distinct (map fst (xs @ x # ys))" "y \<in> set ys"
  shows "fst y \<noteq> fst x" "fst y \<notin> fst ` set xs"
proof -
  from assms(2) have m: "fst y \<in> fst ` set ys" by (rule imageI)
  from assms(1) have a: "fst x \<notin> fst ` set ys" and b: "fst ` set xs \<inter> fst ` set ys = {}"
    by auto
  from m a show "fst y \<noteq> fst x" by metis
  from m b show "fst y \<notin> fst ` set xs" by blast
qed

lemma distinct_split_earlier:
  assumes "distinct (map fst (xs @ x # ys))" "y \<in> set xs"
  shows "fst y \<noteq> fst x"
proof -
  from assms(2) have m: "fst y \<in> fst ` set xs" by (rule imageI)
  from assms(1) have a: "fst x \<notin> fst ` set xs" by auto
  from m a show "fst y \<noteq> fst x" by metis
qed

lemma NextElementByAtom_found:
  assumes wf: "wf_doc h t" and L: "preorder t 0 = xs @ x # ys"
  shows "NextElementByAtom h a (at p x) =
           Some (found (has_atom h a) ys ErrEndOfDoc (last (x # ys)) p)"
proof (cases ys)
  case Nil
  with wf_doc_forward(2)[OF wf L, of p] show ?thesis
    by (simp add: NextElementByAtom_def)
next
  case (Cons y ys')
  with L have L': "preorder t 0 = (xs @ [x]) @ y # ys'" by simp
  from wf_doc_forward(1)[OF wf L] Cons
  have step: "Next h (at p x) = Some (Inr (fst y), at p y)" by simp
  have "NextElementByAtom_loop h a (at p y) =
      Some (found (\<lambda>z. isElem (h (fst z)) \<and> n_DataAtom (h (fst z)) = a) (y # ys')
              ErrEndOfDoc (last (y # ys')) p)"
    by (rule search_loop[where F = "NextElementByAtom_loop h a" and S = "Next h"
          and C = "\<lambda>n. isElem (h n) \<and> n_DataAtom (h n) = a" and E = "\<lambda>e. e",
          OF NextElementByAtom_loop.simps wf_doc_forward(1)[OF wf L']
          wf_doc_forward(2)[OF wf L']])
  with step Cons show ?thesis
    by (simp add: NextElementByAtom_def has_atom_def[abs_def])
qed

lemma FirstElementByAtom_found:
  assumes wf: "wf_doc h t" and d: "doc p = addr t"
  shows "FirstElementByAtom h a p =
           Some (found (has_atom h a) (tl (preorder t 0)) ErrEndOfDoc (last (preorder t 0)) p)"
proof -
  note L = preorder_root_tl[of t]
  have r: "Reset p = (addr t, at p (addr t, 0))"
    using d by (simp add: Reset_def at_def)
  show ?thesis
  proof (cases "tl (preorder t 0)")
    case Nil
    with L have "last (preorder t 0) = (addr t, 0)" by simp
    with wf_doc_Next(2)[OF wf, of p] Nil show ?thesis
      by (simp add: FirstElementByAtom_def r)
  next
    case (Cons y ys')
    with L have L': "preorder t 0 = [(addr t, 0)] @ y # ys'" by simp
    then have l: "last (y # ys') = last (preorder t 0)" by simp
    from wf_doc_forward(1)[OF wf L] Cons
    have step: "Next h (at p (addr t, 0)) = Some (Inr (fst y), at p y)" by simp
    have "FirstElementByAtom_loop h a (at p y) =
        Some (found (\<lambda>z. isElem (h (fst z)) \<and> n_DataAtom (h (fst z)) = a) (y # ys')
                ErrEndOfDoc (last (y # ys')) p)"
      by (rule search_loop[where F = "FirstElementByAtom_loop h a" and S = "Next h"
            and C = "\<lambda>n. isElem (h n) \<and> n_DataAtom (h n) = a" and E = "\<lambda>e. e",
            OF FirstElementByAtom_loop.simps wf_doc_forward(1)[OF wf L']
            wf_doc_forward(2)[OF wf L']])
    with step Cons show ?thesis
      unfolding l by (simp add: FirstElementByAtom_def r has_atom_def[abs_def])
  qed
qed

lemma NextElement_found:
  assumes wf: "wf_doc h t" and L: "preorder t 0 = xs @ x # ys"
  shows "NextElement h (at p x) =
           Some (found (\<lambda>y. isElem (h (fst y))) (x # ys) ErrEndOfDoc (last (x # ys)) p)"
  by (rule search_loop[where F = "NextElement h" and S = "Next h"
        and C = "\<lambda>n. isElem (h n)" and E = "\<lambda>e. ErrEndOfDoc",
        OF NextElement.simps wf_doc_forward(1)[OF wf L] wf_doc_forward(2)[OF wf L]])

lemma PrevElement_found:
  assumes wf: "wf_doc h t" and L: "preorder t 0 = xs @ x # ys"
  shows "PrevElement h (at p x) =
           Some (found (\<lambda>y. isElem (h (fst y))) (x # rev xs) ErrBegOfDoc (addr t, 0) p)"
  using search_loop[where F = "PrevElement h" and S = "Prev h"
        and C = "\<lambda>n. isElem (h n)" and E = "\<lambda>e. ErrBegOfDoc",
        OF PrevElement.simps wf_doc_backward(1)[OF wf L] wf_doc_backward(2)[OF wf L], of p]
  unfolding wf_doc_backward(3)[OF wf L] .

lemma depth_of_iff:
  assumes "wf_doc h t"
  shows "(depth_of t a = Some l) = ((a, l) \<in> set (preorder t 0))"
  using wf_doc_distinct[OF assms] by (simp add: depth_of_def nodes_def)

lemma level_ok_at:
  assumes "wf_doc h t" "level_ok t p" "y \<in> set (preorder t 0)"
  shows "level_ok t (at p y)"
  using assms(2,3) depth_of_iff[OF assms(1), of "fst y" "snd y"] by (simp add: level_ok_def)

lemma level_ok_split:
  assumes "wf_doc h t" "level_ok t p"
  obtains xs ys where "preorder t 0 = xs @ (node p, level p) # ys"
  using assms(2) depth_of_iff[OF assms(1), of "node p" "level p"]
  by (auto simp: level_ok_def dest: split_list)

lemma found_state:
  "z \<in> S \<Longrightarrow> set zs \<subseteq> S \<Longrightarrow> \<exists>r w. found P zs e z p = (r, at p w) \<and> w \<in> S"
proof (induction zs)
  case Nil
  then show ?case
    by (intro exI[of _ "Inl e"] exI[of _ z]) (simp add: found_def)
next
  case (Cons y zs)
  show ?case
  proof (cases "P y")
    case True
    with Cons.prems show ?thesis
      by (intro exI[of _ "Inr (fst y)"] exI[of _ y]) (simp add: found_def)
  next
    case False
    with Cons show ?thesis by (simp add: found_def)
  qed
qed

lemma level_ok_found:
  assumes wf: "wf_doc h t" and ok: "level_ok t p"
    and z: "z \<in> set (preorder t 0)" and zs: "set zs \<subseteq> set (preorder t 0)"
    and f: "F = Some (found P zs e z p)"
  shows "\<exists>r q. F = Some (r, q) \<and> level_ok t q"
proof -
  from found_state[OF z zs, of P e p] obtain r w
    where "found P zs e z p = (r, at p w)" "w \<in> set (preorder t 0)" by blast
  with f level_ok_at[OF wf ok this(2)] show ?thesis by simp
qed

lemma level_ok_primitive:
  assumes wf: "wf_doc h t" and ok: "level_ok t p"
  shows "level_ok t (snd (Parent h p))" "level_ok t (snd (FirstChild h p))"
    "level_ok t (snd (LastChild h p))" "level_ok t (snd (NextSibling h p))"
    "level_ok t (snd (PrevSibling h p))"
proof -
  from ok have d: "doc p = addr t" and m: "(node p, level p) \<in> set (preorder t 0)"
    using depth_of_iff[OF wf, of "node p" "level p"] by (simp_all add: level_ok_def)
  note links = wf_doc_links[OF wf m]
  show "level_ok t (snd (Parent h p))"
    using ok d links(3) depth_of_iff[OF wf]
    by (auto simp: Parent_def level_ok_def split: option.splits)
  show "level_ok t (snd (FirstChild h p))"
    using ok d links(1) depth_of_iff[OF wf]
    by (auto simp: FirstChild_def level_ok_def split: option.splits)
  show "level_ok t (snd (LastChild h p))"
    using ok d links(2) depth_of_iff[OF wf]
    by (auto simp: LastChild_def level_ok_def split: option.splits)
  show "level_ok t (snd (NextSibling h p))"
    using ok d links(4) depth_of_iff[OF wf]
    by (auto simp: NextSibling_def level_ok_def split: option.splits)
  show "level_ok t (snd (PrevSibling h p))"
    using ok d links(5) depth_of_iff[OF wf]
    by (auto simp: PrevSibling_def level_ok_def split: option.splits)
qed

lemma level_ok_Next:
  assumes wf: "wf_doc h t" and ok: "level_ok t p"
  shows "\<exists>r q. Next h p = Some (r, q) \<and> level_ok t q"
proof -
  from level_ok_split[OF wf ok] obtain xs ys
    where L: "preorder t 0 = xs @ (node p, level p) # ys" by blast
  show ?thesis
  proof (cases ys)
    case Nil
    with wf_doc_forward(2)[OF wf L, of p] ok show ?thesis by simp
  next
    case (Cons y ys')
    with wf_doc_forward(1)[OF wf L]
    have "\<forall>pa. Next h (at pa (node p, level p)) = Some (Inr (fst y), at pa y)" by simp
    from this[THEN spec, of p] have "Next h p = Some (Inr (fst y), at p y)" by simp
    moreover from L Cons have "y \<in> set (preorder t 0)" by simp
    ultimately show ?thesis using level_ok_at[OF wf ok] by blast
  qed
qed

lemma level_ok_Prev:
  assumes wf: "wf_doc h t" and ok: "level_ok t p"
  shows "\<exists>r q. Prev h p = Some (r, q) \<and> level_ok t q"
proof -
  from level_ok_split[OF wf ok] obtain xs ys
    where L: "preorder t 0 = xs @ (node p, level p) # ys" by blast
  show ?thesis
  proof (cases "rev xs")
    case Nil
    with wf_doc_backward(2)[OF wf L, of p] ok show ?thesis by simp
  next
    case (Cons y ys')
    with wf_doc_backward(1)[OF wf L]
    have "\<forall>pa. Prev h (at pa (node p, level p)) = Some (Inr (fst y), at pa y)" by simp
    from this[THEN spec, of p] have "Prev h p = Some (Inr (fst y), at p y)" by simp
    moreover from Cons have "y \<in> set (rev xs)" by simp
    with L have "y \<in> set (preorder t 0)" by simp
    ultimately show ?thesis using level_ok_at[OF wf ok] by blast
  qed
qed

lemma level_ok_search:
  assumes wf: "wf_doc h t" and ok: "level_ok t p"
  shows "\<exists>r q. NextElement h p = Some (r, q) \<and> level_ok t q"
    and "\<exists>r q. PrevElement h p = Some (r, q) \<and> level_ok t q"
    and "\<exists>r q. NextElementByAtom h a p = Some (r, q) \<and> level_ok t q"
    and "\<exists>r q. FirstElementByAtom h a p = Some (r, q) \<and> level_ok t q"
proof -
  from level_ok_split[OF wf ok] obtain xs ys
    where L: "preorder t 0 = xs @ (node p, level p) # ys" by blast
  have x: "(node p, level p) \<in> set (preorder t 0)" using L by simp
  have lst: "last ((node p, level p) # ys) \<in> set (preorder t 0)"
    using L last_in_set[of "preorder t 0"] by simp
  have root: "(addr t, 0) \<in> set (preorder t 0)" by (rule root_in_preorder)
  have s1: "set ((node p, level p) # ys) \<subseteq> set (preorder t 0)" using L by auto
  have s2: "set ((node p, level p) # rev xs) \<subseteq> set (preorder t 0)" using L by auto
  have s3: "set ys \<subseteq> set (preorder t 0)" using L by auto
  from ok have d: "doc p = addr t" by (simp add: level_ok_def)
  have "NextElement h p =
      Some (found (\<lambda>y. isElem (h (fst y))) ((node p, level p) # ys) ErrEndOfDoc
              (last ((node p, level p) # ys)) p)"
    using NextElement_found[OF wf L, of p] by simp
  from level_ok_found[OF wf ok lst s1 this]
  show "\<exists>r q. NextElement h p = Some (r, q) \<and> level_ok t q" .
  have "PrevElement h p =
      Some (found (\<lambda>y. isElem (h (fst y))) ((node p, level p) # rev xs) ErrBegOfDoc (addr t, 0) p)"
    using PrevElement_found[OF wf L, of p] by simp
  from level_ok_found[OF wf ok root s2 this]
  show "\<exists>r q. PrevElement h p = Some (r, q) \<and> level_ok t q" .
  have "NextElementByAtom h a p =
      Some (found (has_atom h a) ys ErrEndOfDoc (last ((node p, level p) # ys)) p)"
    using NextElementByAtom_found[OF wf L, of a p] by simp
  from level_ok_found[OF wf ok lst s3 this]
  show "\<exists>r q. NextElementByAtom h a p = Some (r, q) \<and> level_ok t q" .
  have lst': "last (preorder t 0) \<in> set (preorder t 0)" by simp
  have "set (tl (preorder t 0)) \<subseteq> set (preorder t 0)"
    by (cases "preorder t 0") auto
  from level_ok_found[OF wf ok lst' this FirstElementByAtom_found[OF wf d]]
  show "\<exists>r q. FirstElementByAtom h a p = Some (r, q) \<and> level_ok t q" .
qed

lemma ex_preorder:
  "preorder ex_tree 0 = [(0, 0), (1, 1), (2, 1), (3, 2), (4, 3), (5, 4), (6, 2), (7, 3), (8, 4)]"
  by (simp add: ex_tree_def)

lemma ex_preorder2:
  "preorder ex_tree2 0 =
     [(0, 0), (1, 1), (2, 1), (3, 2), (4, 3), (5, 4), (6, 2), (7, 3), (8, 4), (9, 1)]"
  by (simp add: ex_tree2_def)

subsection \<open>Single steps on any store\<close>

lemma nextSiblingAscending_loop_doc:
  "nextSiblingAscending_loop h p = Some y \<Longrightarrow> doc (snd y) = doc p"
  apply (rule nextSiblingAscending_loop.raw_induct[where P = "\<lambda>h p y. doc (snd y) = doc p"])
   apply (auto simp: NextSibling_def Parent_def split: option.splits prod.splits sum.splits)
  done

lemma prevSiblingDescending_loop_chain:
  "last_child_chain h (node p) ds \<Longrightarrow>
   prevSiblingDescending_loop h p =
     Some (p\<lparr>node := last (node p # ds), level := level p + int (length ds)\<rparr>)"
proof (induction ds arbitrary: p)
  case Nil
  then show ?case
    by (subst prevSiblingDescending_loop.simps) (simp add: LastChild_def)
next
  case (Cons d ds)
  from Cons.prems have lc: "n_LastChild (h (node p)) = Some d"
    and ch: "last_child_chain h d ds" by simp_all
  let ?p1 = "p\<lparr>node := d, level := level p + 1\<rparr>"
  from ch have "last_child_chain h (node ?p1) ds" by simp
  from Cons.IH[OF this] lc show ?case
    by (subst prevSiblingDescending_loop.simps) (simp add: LastChild_def)
qed

section \<open>The claims\<close>

text \<open>
  C1. On a well-formed document, starting at the root (the position after \<open>Reset\<close>),
  calling \<open>Next\<close> until it fails returns the nodes of the tree in pre-order, every node
  after the root once, and the failing call returns \<open>ErrEndOfDoc\<close> with the parser on the
  last node. From the last node, calling \<open>Prev\<close> until it fails returns the same nodes
  in reverse order and the failing call returns \<open>ErrBegOfDoc\<close> with the parser on the
  root at level 0. The pointers of the tree are pairwise different, so every node is
  visited exactly once.
\<close>

theorem document_order_walk:
  assumes wf: "wf_doc h t" and d: "doc p = addr t"
  shows "Next_walk h (snd (Reset p)) =
           Some (tl (nodes t), ErrEndOfDoc, at p (last (preorder t 0)))
       \<and> Prev_walk h (at p (last (preorder t 0))) =
           Some (tl (rev (nodes t)), ErrBegOfDoc, snd (Reset p))
       \<and> node (snd (Reset p)) = hd (nodes t)
       \<and> distinct (nodes t)"
proof (intro conjI)
  note L = preorder_root_tl[of t]
  have l: "last ((addr t, 0) # tl (preorder t 0)) = last (preorder t 0)"
    using L by simp
  have "Next_walk h (at p (addr t, 0)) =
      Some (map fst (tl (preorder t 0)), ErrEndOfDoc,
            at p (last ((addr t, 0) # tl (preorder t 0))))"
    by (rule walk_loop[where W = "Next_walk h" and S = "Next h", OF Next_walk.simps
      wf_doc_forward(1)[OF wf L] wf_doc_forward(2)[OF wf L]])
  then show "Next_walk h (snd (Reset p)) =
           Some (tl (nodes t), ErrEndOfDoc, at p (last (preorder t 0)))"
    unfolding l by (simp add: Reset_at[OF d] nodes_def map_tl)
  have B: "preorder t 0 = butlast (preorder t 0) @ last (preorder t 0) # []"
    by simp
  from walk_loop[where W = "Prev_walk h" and S = "Prev h", OF Prev_walk.simps
      wf_doc_backward(1)[OF wf B] wf_doc_backward(2)[OF wf B], of p]
    wf_doc_backward(3)[OF wf B]
  have "Prev_walk h (at p (last (preorder t 0))) =
           Some (map fst (rev (butlast (preorder t 0))), ErrBegOfDoc, at p (addr t, 0))"
    by simp
  moreover have "map fst (rev (butlast (preorder t 0))) = tl (rev (nodes t))"
    by (simp add: nodes_def rev_butlast_tl map_tl rev_map)
  ultimately show "Prev_walk h (at p (last (preorder t 0))) =
           Some (tl (rev (nodes t)), ErrBegOfDoc, snd (Reset p))"
    by (simp add: Reset_at[OF d])
  show "node (snd (Reset p)) = hd (nodes t)"
    by (simp add: Reset_at[OF d] nodes_def hd_map)
  show "distinct (nodes t)" by (rule wf_doc_distinct[OF wf])
qed

theorem document_order_walk_witness:
  "wf_doc ex_heap ex_tree \<and> doc (ex_at 5 4) = addr ex_tree
   \<and> Next_walk ex_heap (snd (Reset (ex_at 5 4))) = Some ([1, 2, 3, 4, 5, 6, 7, 8], ErrEndOfDoc, ex_at 8 4)
   \<and> Prev_walk ex_heap (ex_at 8 4) = Some ([7, 6, 5, 4, 3, 2, 1, 0], ErrBegOfDoc, ex_at 0 0)
   \<and> nodes ex_tree = [0, 1, 2, 3, 4, 5, 6, 7, 8]"
proof -
  have d: "doc (ex_at 5 4) = addr ex_tree" by (simp add: ex_at_def ex_tree_def)
  from document_order_walk[OF wf_ex d] wf_ex d show ?thesis
    by (simp add: nodes_def ex_preorder Reset_def at_def ex_at_def)
qed

text \<open>
  C2. On a well-formed document, let \<open>x\<close> and \<open>y\<close> be two consecutive positions in
  document order. \<open>Next\<close> moves from \<open>x\<close> to \<open>y\<close> and \<open>Prev\<close> from \<open>y\<close> to \<open>x\<close>, node
  and level; so \<open>Next\<close> then \<open>Prev\<close> from any position but the last, and \<open>Prev\<close> then
  \<open>Next\<close> from any position but the root, end where they started.
\<close>

theorem Next_Prev_inverse:
  assumes wf: "wf_doc h t" and L: "preorder t 0 = xs @ x # y # ys"
  shows "Next h (at p x) = Some (Inr (fst y), at p y)
       \<and> Prev h (at p y) = Some (Inr (fst x), at p x)
       \<and> Option.bind (Next h (at p x)) (\<lambda>(r, q). Prev h q) = Some (Inr (fst x), at p x)
       \<and> Option.bind (Prev h (at p y)) (\<lambda>(r, q). Next h q) = Some (Inr (fst y), at p y)"
proof -
  from wf_doc_Next(1)[OF wf] L have "Next_to h x y"
    by (simp add: successively_append_iff)
  then have n: "Next h (at p x) = Some (Inr (fst y), at p y)" by (simp add: Next_to_def)
  from wf_doc_Prev(1)[OF wf] L have "Prev_from h x y"
    by (simp add: successively_append_iff)
  then have v: "Prev h (at p y) = Some (Inr (fst x), at p x)" by (simp add: Prev_from_def)
  from n v show ?thesis by simp
qed

theorem Next_Prev_inverse_witness:
  "wf_doc ex_heap ex_tree
   \<and> Next ex_heap (ex_at 5 4) = Some (Inr 6, ex_at 6 2)
   \<and> Prev ex_heap (ex_at 6 2) = Some (Inr 5, ex_at 5 4)
   \<and> Option.bind (Next ex_heap (ex_at 5 4)) (\<lambda>(r, q). Prev ex_heap q) = Some (Inr 5, ex_at 5 4)
   \<and> Option.bind (Prev ex_heap (ex_at 6 2)) (\<lambda>(r, q). Next ex_heap q) = Some (Inr 6, ex_at 6 2)"
proof -
  have L: "preorder ex_tree 0 =
      [(0, 0), (1, 1), (2, 1), (3, 2), (4, 3)] @ (5, 4) # (6, 2) # [(7, 3), (8, 4)]"
    by (simp add: ex_preorder)
  from Next_Prev_inverse[OF wf_ex L, of "ex_at 0 0"] wf_ex show ?thesis
    by (simp add: at_def ex_at_def)
qed

text \<open>
  C3. Whenever \<open>Next\<close> fails, the current node has no first child, the error is
  \<open>ErrEndOfDoc\<close> and the parser after the call is the parser before the call: the
  ascending sibling search has restored the node and the level it started from, whatever
  ancestors it climbed through.
\<close>

theorem Next_failure_restores_position:
  "Next h p = Some (Inl e, p') \<Longrightarrow>
   e = ErrEndOfDoc \<and> p' = p \<and> node p' = node p \<and> level p' = level p
   \<and> n_FirstChild (h (node p)) = None"
  by (auto simp: Next_def FirstChild_def nextSiblingAscending_def
      split: option.splits prod.splits sum.splits dest!: nextSiblingAscending_loop_doc)

theorem Next_failure_restores_position_witness:
  "Next ex_heap (ex_at 8 4) = Some (Inl ErrEndOfDoc, ex_at 8 4)
   \<and> node (ex_at 8 4) = 8 \<and> level (ex_at 8 4) = 4
   \<and> n_FirstChild (ex_heap (node (ex_at 8 4))) = None"
proof -
  have f: "Next ex_heap (ex_at 8 4) = Some (Inl ErrEndOfDoc, ex_at 8 4)"
    by (simp add: Next_def nextSiblingAscending_def nextSiblingAscending_loop.simps
        move_defs ex_defs)
  from Next_failure_restores_position[OF f] f show ?thesis
    by (simp add: ex_at_def)
qed

text \<open>
  C4. On a well-formed document the level of the parser is the depth of its current node,
  the root at depth 0. This holds for the parser made by \<open>NewParser\<close> and after \<open>Reset\<close>,
  and every operation keeps it: \<open>Parent\<close> subtracts 1 from the level, \<open>FirstChild\<close> and
  \<open>LastChild\<close> add 1, \<open>NextSibling\<close> and \<open>PrevSibling\<close> leave it, and \<open>Next\<close>, \<open>Prev\<close>
  and the four searches return with the level equal to the depth again.
\<close>

theorem level_equals_depth:
  assumes wf: "wf_doc h t"
  shows "NewParser (Inr (addr t)) = Inr \<lparr>doc = addr t, node = addr t, level = 0\<rparr>
       \<and> level_ok t \<lparr>doc = addr t, node = addr t, level = 0\<rparr>
       \<and> (doc p = addr t \<longrightarrow> level_ok t (snd (Reset p)))
       \<and> (level_ok t p \<longrightarrow>
            level_ok t (snd (Parent h p))
            \<and> level_ok t (snd (FirstChild h p))
            \<and> level_ok t (snd (LastChild h p))
            \<and> level_ok t (snd (NextSibling h p))
            \<and> level_ok t (snd (PrevSibling h p))
            \<and> (\<forall>n. fst (Parent h p) = Inr n \<longrightarrow> level (snd (Parent h p)) = level p - 1)
            \<and> (\<forall>n. fst (FirstChild h p) = Inr n \<longrightarrow> level (snd (FirstChild h p)) = level p + 1)
            \<and> (\<forall>n. fst (LastChild h p) = Inr n \<longrightarrow> level (snd (LastChild h p)) = level p + 1)
            \<and> level (snd (NextSibling h p)) = level p
            \<and> level (snd (PrevSibling h p)) = level p
            \<and> (\<exists>r q. Next h p = Some (r, q) \<and> level_ok t q)
            \<and> (\<exists>r q. Prev h p = Some (r, q) \<and> level_ok t q)
            \<and> (\<exists>r q. NextElement h p = Some (r, q) \<and> level_ok t q)
            \<and> (\<exists>r q. PrevElement h p = Some (r, q) \<and> level_ok t q)
            \<and> (\<exists>r q. FirstElementByAtom h a p = Some (r, q) \<and> level_ok t q)
            \<and> (\<exists>r q. NextElementByAtom h a p = Some (r, q) \<and> level_ok t q))"
proof -
  have root: "depth_of t (addr t) = Some 0"
    using depth_of_iff[OF wf, of "addr t" 0] root_in_preorder[of t 0] by simp
  have new: "NewParser (Inr (addr t)) = Inr \<lparr>doc = addr t, node = addr t, level = 0\<rparr>"
    by (simp add: NewParser_def)
  have init: "level_ok t \<lparr>doc = addr t, node = addr t, level = 0\<rparr>"
    using root by (simp add: level_ok_def)
  have reset: "doc p = addr t \<longrightarrow> level_ok t (snd (Reset p))"
    using root by (simp add: level_ok_def Reset_def)
  have lv: "(\<forall>n. fst (Parent h p) = Inr n \<longrightarrow> level (snd (Parent h p)) = level p - 1)
            \<and> (\<forall>n. fst (FirstChild h p) = Inr n \<longrightarrow> level (snd (FirstChild h p)) = level p + 1)
            \<and> (\<forall>n. fst (LastChild h p) = Inr n \<longrightarrow> level (snd (LastChild h p)) = level p + 1)
            \<and> level (snd (NextSibling h p)) = level p
            \<and> level (snd (PrevSibling h p)) = level p"
    by (simp add: move_defs split: option.splits)
  have inv: "level_ok t p \<longrightarrow>
            level_ok t (snd (Parent h p))
            \<and> level_ok t (snd (FirstChild h p))
            \<and> level_ok t (snd (LastChild h p))
            \<and> level_ok t (snd (NextSibling h p))
            \<and> level_ok t (snd (PrevSibling h p))
            \<and> (\<exists>r q. Next h p = Some (r, q) \<and> level_ok t q)
            \<and> (\<exists>r q. Prev h p = Some (r, q) \<and> level_ok t q)
            \<and> (\<exists>r q. NextElement h p = Some (r, q) \<and> level_ok t q)
            \<and> (\<exists>r q. PrevElement h p = Some (r, q) \<and> level_ok t q)
            \<and> (\<exists>r q. FirstElementByAtom h a p = Some (r, q) \<and> level_ok t q)
            \<and> (\<exists>r q. NextElementByAtom h a p = Some (r, q) \<and> level_ok t q)"
  proof (intro impI conjI)
    assume ok: "level_ok t p"
    show "level_ok t (snd (Parent h p))" by (rule level_ok_primitive(1)[OF wf ok])
    show "level_ok t (snd (FirstChild h p))" by (rule level_ok_primitive(2)[OF wf ok])
    show "level_ok t (snd (LastChild h p))" by (rule level_ok_primitive(3)[OF wf ok])
    show "level_ok t (snd (NextSibling h p))" by (rule level_ok_primitive(4)[OF wf ok])
    show "level_ok t (snd (PrevSibling h p))" by (rule level_ok_primitive(5)[OF wf ok])
    show "\<exists>r q. Next h p = Some (r, q) \<and> level_ok t q" by (rule level_ok_Next[OF wf ok])
    show "\<exists>r q. Prev h p = Some (r, q) \<and> level_ok t q" by (rule level_ok_Prev[OF wf ok])
    show "\<exists>r q. NextElement h p = Some (r, q) \<and> level_ok t q"
      by (rule level_ok_search(1)[OF wf ok])
    show "\<exists>r q. PrevElement h p = Some (r, q) \<and> level_ok t q"
      by (rule level_ok_search(2)[OF wf ok])
    show "\<exists>r q. FirstElementByAtom h a p = Some (r, q) \<and> level_ok t q"
      by (rule level_ok_search(4)[OF wf ok])
    show "\<exists>r q. NextElementByAtom h a p = Some (r, q) \<and> level_ok t q"
      by (rule level_ok_search(3)[OF wf ok])
  qed
  show ?thesis
  proof (intro conjI)
    show "NewParser (Inr (addr t)) = Inr \<lparr>doc = addr t, node = addr t, level = 0\<rparr>"
      by (rule new)
    show "level_ok t \<lparr>doc = addr t, node = addr t, level = 0\<rparr>" by (rule init)
    show "doc p = addr t \<longrightarrow> level_ok t (snd (Reset p))" by (rule reset)
    show "level_ok t p \<longrightarrow>
            level_ok t (snd (Parent h p))
            \<and> level_ok t (snd (FirstChild h p))
            \<and> level_ok t (snd (LastChild h p))
            \<and> level_ok t (snd (NextSibling h p))
            \<and> level_ok t (snd (PrevSibling h p))
            \<and> (\<forall>n. fst (Parent h p) = Inr n \<longrightarrow> level (snd (Parent h p)) = level p - 1)
            \<and> (\<forall>n. fst (FirstChild h p) = Inr n \<longrightarrow> level (snd (FirstChild h p)) = level p + 1)
            \<and> (\<forall>n. fst (LastChild h p) = Inr n \<longrightarrow> level (snd (LastChild h p)) = level p + 1)
            \<and> level (snd (NextSibling h p)) = level p
            \<and> level (snd (PrevSibling h p)) = level p
            \<and> (\<exists>r q. Next h p = Some (r, q) \<and> level_ok t q)
            \<and> (\<exists>r q. Prev h p = Some (r, q) \<and> level_ok t q)
            \<and> (\<exists>r q. NextElement h p = Some (r, q) \<and> level_ok t q)
            \<and> (\<exists>r q. PrevElement h p = Some (r, q) \<and> level_ok t q)
            \<and> (\<exists>r q. FirstElementByAtom h a p = Some (r, q) \<and> level_ok t q)
            \<and> (\<exists>r q. NextElementByAtom h a p = Some (r, q) \<and> level_ok t q)"
      using inv lv by (elim conjE) (intro impI conjI; (erule (1) impE)?; (elim conjE)?; assumption)
  qed

qed

theorem level_equals_depth_witness:
  "wf_doc ex_heap ex_tree \<and> level_ok ex_tree (ex_at 3 2)
   \<and> level_ok ex_tree (snd (Parent ex_heap (ex_at 3 2)))
   \<and> level (snd (Parent ex_heap (ex_at 3 2))) = 1
   \<and> level (snd (FirstChild ex_heap (ex_at 3 2))) = 3
   \<and> level_ok ex_tree (snd (Reset (ex_at 3 2)))
   \<and> (\<exists>r q. Next ex_heap (ex_at 3 2) = Some (r, q) \<and> level_ok ex_tree q)
   \<and> (\<exists>r q. NextElementByAtom ex_heap 3 (ex_at 3 2) = Some (r, q) \<and> level_ok ex_tree q)"
proof -
  have ok: "level_ok ex_tree (ex_at 3 2)"
    by (simp add: level_ok_def depth_of_def ex_preorder) (simp add: ex_at_def ex_tree_def)
  have d: "doc (ex_at 3 2) = addr ex_tree" by (simp add: ex_at_def ex_tree_def)
  have p: "fst (Parent ex_heap (ex_at 3 2)) = Inr 2" "fst (FirstChild ex_heap (ex_at 3 2)) = Inr 4"
    "level (ex_at 3 2) = 2"
    by (simp_all add: move_defs ex_defs)
  from level_equals_depth[OF wf_ex, of "ex_at 3 2" 3] ok d p wf_ex show ?thesis
    by auto
qed

text \<open>
  C5. Each of the five primitive moves fails with \<open>ErrNoSuchRelative\<close> exactly when the
  link it follows is nil in the current node, and a failing move returns the parser as it
  was: the current node and the level are unchanged. When the link is not nil the move
  succeeds and returns the node the link points to.
\<close>

theorem primitive_move_fails_iff_link_nil:
  "(n_Parent (h (node p)) = None \<longrightarrow> Parent h p = (Inl ErrNoSuchRelative, p))
   \<and> (\<forall>n. n_Parent (h (node p)) = Some n \<longrightarrow> fst (Parent h p) = Inr n)
   \<and> (n_FirstChild (h (node p)) = None \<longrightarrow> FirstChild h p = (Inl ErrNoSuchRelative, p))
   \<and> (\<forall>n. n_FirstChild (h (node p)) = Some n \<longrightarrow> fst (FirstChild h p) = Inr n)
   \<and> (n_LastChild (h (node p)) = None \<longrightarrow> LastChild h p = (Inl ErrNoSuchRelative, p))
   \<and> (\<forall>n. n_LastChild (h (node p)) = Some n \<longrightarrow> fst (LastChild h p) = Inr n)
   \<and> (n_NextSibling (h (node p)) = None \<longrightarrow> NextSibling h p = (Inl ErrNoSuchRelative, p))
   \<and> (\<forall>n. n_NextSibling (h (node p)) = Some n \<longrightarrow> fst (NextSibling h p) = Inr n)
   \<and> (n_PrevSibling (h (node p)) = None \<longrightarrow> PrevSibling h p = (Inl ErrNoSuchRelative, p))
   \<and> (\<forall>n. n_PrevSibling (h (node p)) = Some n \<longrightarrow> fst (PrevSibling h p) = Inr n)"
  by (simp add: move_defs)

theorem primitive_move_fails_iff_link_nil_witness:
  "Parent ex_heap (ex_at 0 0) = (Inl ErrNoSuchRelative, ex_at 0 0)
   \<and> fst (Parent ex_heap (ex_at 5 4)) = Inr 4
   \<and> FirstChild ex_heap (ex_at 5 4) = (Inl ErrNoSuchRelative, ex_at 5 4)
   \<and> fst (FirstChild ex_heap (ex_at 0 0)) = Inr 1
   \<and> LastChild ex_heap (ex_at 5 4) = (Inl ErrNoSuchRelative, ex_at 5 4)
   \<and> fst (LastChild ex_heap (ex_at 0 0)) = Inr 2
   \<and> NextSibling ex_heap (ex_at 6 2) = (Inl ErrNoSuchRelative, ex_at 6 2)
   \<and> fst (NextSibling ex_heap (ex_at 3 2)) = Inr 6
   \<and> PrevSibling ex_heap (ex_at 3 2) = (Inl ErrNoSuchRelative, ex_at 3 2)
   \<and> fst (PrevSibling ex_heap (ex_at 6 2)) = Inr 3"
  using primitive_move_fails_iff_link_nil[of ex_heap "ex_at 0 0"]
    primitive_move_fails_iff_link_nil[of ex_heap "ex_at 5 4"]
    primitive_move_fails_iff_link_nil[of ex_heap "ex_at 6 2"]
    primitive_move_fails_iff_link_nil[of ex_heap "ex_at 3 2"]
  by (simp add: ex_defs)

text \<open>
  C6. \<open>Prev\<close> mirrors \<open>Next\<close>. If the current node has a previous sibling \<open>s\<close> and the
  last-child links from \<open>s\<close> lead through the nodes \<open>ds\<close> to a node without children,
  \<open>Prev\<close> moves to the end of that chain (to \<open>s\<close> itself when \<open>ds\<close> is empty) and the
  level grows by the length of the chain. If there is no previous sibling but a parent,
  \<open>Prev\<close> moves to the parent, one level up. If there is neither, \<open>Prev\<close> fails with
  \<open>ErrBegOfDoc\<close> and the parser is unchanged.
\<close>

theorem Prev_mirrors_Next:
  "(\<forall>s ds. n_PrevSibling (h (node p)) = Some s \<and> last_child_chain h s ds \<longrightarrow>
      Prev h p = Some (Inr (last (s # ds)),
                       p\<lparr>node := last (s # ds), level := level p + int (length ds)\<rparr>))
   \<and> (\<forall>q. n_PrevSibling (h (node p)) = None \<and> n_Parent (h (node p)) = Some q \<longrightarrow>
      Prev h p = Some (Inr q, p\<lparr>node := q, level := level p - 1\<rparr>))
   \<and> (n_PrevSibling (h (node p)) = None \<and> n_Parent (h (node p)) = None \<longrightarrow>
      Prev h p = Some (Inl ErrBegOfDoc, p))"
proof (intro conjI allI impI)
  fix s ds
  assume a: "n_PrevSibling (h (node p)) = Some s \<and> last_child_chain h s ds"
  then have "last_child_chain h (node (p\<lparr>node := s\<rparr>)) ds" by simp
  from prevSiblingDescending_loop_chain[OF this] a
  show "Prev h p = Some (Inr (last (s # ds)),
                       p\<lparr>node := last (s # ds), level := level p + int (length ds)\<rparr>)"
    by (simp add: Prev_def prevSiblingDescending_def PrevSibling_def)
next
  fix q
  assume "n_PrevSibling (h (node p)) = None \<and> n_Parent (h (node p)) = Some q"
  then show "Prev h p = Some (Inr q, p\<lparr>node := q, level := level p - 1\<rparr>)"
    by (simp add: Prev_def prevSiblingDescending_def PrevSibling_def Parent_def)
next
  assume "n_PrevSibling (h (node p)) = None \<and> n_Parent (h (node p)) = None"
  then show "Prev h p = Some (Inl ErrBegOfDoc, p)"
    by (simp add: Prev_def prevSiblingDescending_def PrevSibling_def Parent_def)
qed

theorem Prev_mirrors_Next_witness:
  "Prev ex_heap (ex_at 6 2) = Some (Inr 5, ex_at 5 4)
   \<and> Prev ex_heap (ex_at 2 1) = Some (Inr 1, ex_at 1 1)
   \<and> Prev ex_heap (ex_at 3 2) = Some (Inr 2, ex_at 2 1)
   \<and> Prev ex_heap (ex_at 0 0) = Some (Inl ErrBegOfDoc, ex_at 0 0)"
proof -
  have a: "Prev ex_heap (ex_at 6 2) = Some (Inr 5, ex_at 5 4)"
    using Prev_mirrors_Next[of ex_heap "ex_at 6 2", THEN conjunct1, rule_format, of 3 "[4, 5]"]
    by (simp add: ex_defs)
  have b: "Prev ex_heap (ex_at 2 1) = Some (Inr 1, ex_at 1 1)"
    using Prev_mirrors_Next[of ex_heap "ex_at 2 1", THEN conjunct1, rule_format, of 1 "[]"]
    by (simp add: ex_defs)
  have c: "Prev ex_heap (ex_at 3 2) = Some (Inr 2, ex_at 2 1)"
    using Prev_mirrors_Next[of ex_heap "ex_at 3 2", THEN conjunct2, THEN conjunct1,
        rule_format, of 2]
    by (simp add: ex_defs)
  have d: "Prev ex_heap (ex_at 0 0) = Some (Inl ErrBegOfDoc, ex_at 0 0)"
    using Prev_mirrors_Next[of ex_heap "ex_at 0 0", THEN conjunct2, THEN conjunct2]
    by (simp add: ex_defs)
  from a b c d show ?thesis by simp
qed

text \<open>
  C7. On a well-formed document \<open>FirstElementByAtom\<close> resets the parser, steps once with
  \<open>Next\<close> and then searches forward: it returns the first element with the atom among
  the nodes after the root, and it is \<open>NextElementByAtom\<close> from the reset parser. When no
  node after the root matches it fails with \<open>ErrEndOfDoc\<close>, the error of \<open>Next\<close>, and the
  parser stands on the last node of the document; this is what \<open>FirstMeta\<close> does on a
  document without a \<^verbatim>\<open>meta\<close> element.
\<close>

theorem FirstElementByAtom_search:
  assumes wf: "wf_doc h t" and d: "doc p = addr t"
  shows "FirstElementByAtom h a p =
           Some (found (has_atom h a) (tl (preorder t 0)) ErrEndOfDoc (last (preorder t 0)) p)
       \<and> FirstElementByAtom h a p = NextElementByAtom h a (snd (Reset p))
       \<and> ((\<forall>y\<in>set (preorder t 0). \<not> has_atom h a y) \<longrightarrow>
            FirstMeta a h p = Some (Inl ErrEndOfDoc, at p (last (preorder t 0))))"
proof (intro conjI impI)
  show f: "FirstElementByAtom h a p =
           Some (found (has_atom h a) (tl (preorder t 0)) ErrEndOfDoc (last (preorder t 0)) p)"
    by (rule FirstElementByAtom_found[OF wf d])
  note L = preorder_root_tl[of t]
  have l: "last ((addr t, 0) # tl (preorder t 0)) = last (preorder t 0)"
    using L by simp
  from NextElementByAtom_found[OF wf L, of a p] f
  show "FirstElementByAtom h a p = NextElementByAtom h a (snd (Reset p))"
    unfolding l by (simp add: Reset_at[OF d])
  assume "\<forall>y\<in>set (preorder t 0). \<not> has_atom h a y"
  then have "\<forall>y\<in>set (tl (preorder t 0)). \<not> has_atom h a y"
    by (auto dest: list.set_sel(2)[rotated])
  from found_none[OF this] f
  show "FirstMeta a h p = Some (Inl ErrEndOfDoc, at p (last (preorder t 0)))"
    by (simp add: FirstMeta_def)
qed

theorem FirstElementByAtom_search_witness:
  "wf_doc ex_heap ex_tree \<and> doc (ex_at 5 4) = addr ex_tree
   \<and> FirstElementByAtom ex_heap 3 (ex_at 5 4) = Some (Inr 6, ex_at 6 2)
   \<and> FirstMeta 6 ex_heap (ex_at 5 4) = Some (Inl ErrEndOfDoc, ex_at 8 4)"
proof -
  have d: "doc (ex_at 5 4) = addr ex_tree" by (simp add: ex_at_def ex_tree_def)
  have none: "\<forall>y\<in>set (preorder ex_tree 0). \<not> has_atom ex_heap 6 y"
    by (simp add: ex_preorder has_atom_def isElem_def ex_defs)
  have f: "found (has_atom ex_heap 3) (tl (preorder ex_tree 0)) ErrEndOfDoc
             (last (preorder ex_tree 0)) (ex_at 5 4) = (Inr 6, ex_at 6 2)"
    by (simp add: ex_preorder found_def has_atom_def isElem_def ex_defs at_def)
  from FirstElementByAtom_search[OF wf_ex d, of 3]
    FirstElementByAtom_search[OF wf_ex d, of 6] none f wf_ex d
  show ?thesis
    by (simp add: ex_preorder at_def ex_at_def)
qed

text \<open>
  C8. On a well-formed document \<open>NextElementByAtom\<close> searches only the positions after
  the current one: it returns the first element with the atom among them, or fails with
  \<open>ErrEndOfDoc\<close> on the last node. A node it returns is never the current node, nor an
  earlier one; it lies strictly later in document order. The first thing it does is a
  call of \<open>Next\<close>: when that call fails the search fails with its error, whatever the
  current node is.
\<close>

theorem NextElementByAtom_strictly_later:
  assumes wf: "wf_doc h t" and L: "preorder t 0 = xs @ x # ys"
  shows "NextElementByAtom h a (at p x) =
           Some (found (has_atom h a) ys ErrEndOfDoc (last (x # ys)) p)
       \<and> (\<forall>n p'. NextElementByAtom h a (at p x) = Some (Inr n, p') \<longrightarrow>
            n \<noteq> node (at p x) \<and> n \<notin> fst ` set xs
            \<and> (\<exists>l. (n, l) \<in> set ys \<and> has_atom h a (n, l) \<and> p' = at p (n, l)))
       \<and> (\<forall>e q. Next h (at p x) = Some (Inl e, q) \<longrightarrow>
            NextElementByAtom h a (at p x) = Some (Inl e, q))"
proof (intro conjI allI impI)
  fix e q
  assume "Next h (at p x) = Some (Inl e, q)"
  then show "NextElementByAtom h a (at p x) = Some (Inl e, q)"
    by (simp add: NextElementByAtom_def)
next
  show f: "NextElementByAtom h a (at p x) =
           Some (found (has_atom h a) ys ErrEndOfDoc (last (x # ys)) p)"
    by (rule NextElementByAtom_found[OF wf L])
  fix n p'
  assume "NextElementByAtom h a (at p x) = Some (Inr n, p')"
  with f have "found (has_atom h a) ys ErrEndOfDoc (last (x # ys)) p = (Inr n, p')" by simp
  from found_Inr[OF this] obtain y where y: "y \<in> set ys" "has_atom h a y" "n = fst y" "p' = at p y"
    by blast
  from wf_doc_distinct[OF wf] L have dis: "distinct (map fst (xs @ x # ys))"
    by (simp add: nodes_def)
  note distinct_split_later[OF dis y(1)]
  with y show "n \<noteq> node (at p x)" "n \<notin> fst ` set xs"
    "\<exists>l. (n, l) \<in> set ys \<and> has_atom h a (n, l) \<and> p' = at p (n, l)"
    by (auto intro: exI[of _ "snd y"])
qed

theorem NextElementByAtom_strictly_later_witness:
  "wf_doc ex_heap ex_tree
   \<and> has_atom ex_heap 3 (6, 2)
   \<and> NextElementByAtom ex_heap 3 (ex_at 6 2) = Some (Inl ErrEndOfDoc, ex_at 8 4)
   \<and> NextElementByAtom ex_heap 3 (ex_at 3 2) = Some (Inr 6, ex_at 6 2)
   \<and> 6 \<noteq> node (ex_at 3 2)"
proof -
  have L1: "preorder ex_tree 0 =
      [(0, 0), (1, 1), (2, 1), (3, 2), (4, 3), (5, 4)] @ (6, 2) # [(7, 3), (8, 4)]"
    by (simp add: ex_preorder)
  have L2: "preorder ex_tree 0 =
      [(0, 0), (1, 1), (2, 1)] @ (3, 2) # [(4, 3), (5, 4), (6, 2), (7, 3), (8, 4)]"
    by (simp add: ex_preorder)
  have m: "has_atom ex_heap 3 (6, 2)" by (simp add: has_atom_def isElem_def ex_defs)
  have a: "NextElementByAtom ex_heap 3 (ex_at 6 2) = Some (Inl ErrEndOfDoc, ex_at 8 4)"
    using NextElementByAtom_strictly_later[OF wf_ex L1, of 3 "ex_at 0 0", THEN conjunct1]
    by (simp add: found_def has_atom_def isElem_def ex_defs at_def)
  have b: "NextElementByAtom ex_heap 3 (ex_at 3 2) = Some (Inr 6, ex_at 6 2)"
    using NextElementByAtom_strictly_later[OF wf_ex L2, of 3 "ex_at 0 0", THEN conjunct1]
    by (simp add: found_def has_atom_def isElem_def ex_defs at_def)
  have c: "6 \<noteq> node (ex_at 3 2)"
    using NextElementByAtom_strictly_later[OF wf_ex L2, of 3 "ex_at 0 0", THEN conjunct2,
        THEN conjunct1, rule_format, of 6 "ex_at 6 2"] b
    by (simp add: at_def ex_at_def)
  from wf_ex m a b c show ?thesis by simp
qed

text \<open>
  C9. On a well-formed document \<open>NextElement\<close> returns the first element among the
  current position and the later ones, and \<open>PrevElement\<close> the first element among the
  current position and the earlier ones, nearest first. When there is none they fail with
  \<open>ErrEndOfDoc\<close> and \<open>ErrBegOfDoc\<close>, and the parser is not put back: it stands on the
  last node of the document, respectively on the root, which is another node than the one
  the search started from whenever the search has moved.
\<close>

theorem Element_search_no_rollback:
  assumes wf: "wf_doc h t" and L: "preorder t 0 = xs @ x # ys"
  shows "NextElement h (at p x) =
           Some (found (\<lambda>y. isElem (h (fst y))) (x # ys) ErrEndOfDoc (last (x # ys)) p)
       \<and> PrevElement h (at p x) =
           Some (found (\<lambda>y. isElem (h (fst y))) (x # rev xs) ErrBegOfDoc (addr t, 0) p)
       \<and> ((\<forall>y\<in>set (x # ys). \<not> isElem (h (fst y))) \<longrightarrow>
            NextElement h (at p x) = Some (Inl ErrEndOfDoc, at p (last (x # ys)))
            \<and> (ys \<noteq> [] \<longrightarrow> node (at p (last (x # ys))) \<noteq> node (at p x)))
       \<and> ((\<forall>y\<in>set (x # xs). \<not> isElem (h (fst y))) \<longrightarrow>
            PrevElement h (at p x) = Some (Inl ErrBegOfDoc, at p (addr t, 0))
            \<and> (xs \<noteq> [] \<longrightarrow> node (at p (addr t, 0)) \<noteq> node (at p x)))"
proof (intro conjI impI)
  from wf_doc_distinct[OF wf] L have dis: "distinct (map fst (xs @ x # ys))"
    by (simp add: nodes_def)
  show n: "NextElement h (at p x) =
           Some (found (\<lambda>y. isElem (h (fst y))) (x # ys) ErrEndOfDoc (last (x # ys)) p)"
    by (rule NextElement_found[OF wf L])
  show v: "PrevElement h (at p x) =
           Some (found (\<lambda>y. isElem (h (fst y))) (x # rev xs) ErrBegOfDoc (addr t, 0) p)"
    by (rule PrevElement_found[OF wf L])
  {
    assume a: "\<forall>y\<in>set (x # ys). \<not> isElem (h (fst y))"
    from found_none[of "x # ys" "\<lambda>y. isElem (h (fst y))", OF a] n
    show "NextElement h (at p x) = Some (Inl ErrEndOfDoc, at p (last (x # ys)))" by simp
    assume "ys \<noteq> []"
    then have "last (x # ys) \<in> set ys" by simp
    from distinct_split_later(1)[OF dis this]
    show "node (at p (last (x # ys))) \<noteq> node (at p x)" by simp
  }
  {
    assume a: "\<forall>y\<in>set (x # xs). \<not> isElem (h (fst y))"
    then have "\<forall>y\<in>set (x # rev xs). \<not> isElem (h (fst y))" by simp
    from found_none[of "x # rev xs" "\<lambda>y. isElem (h (fst y))", OF this] v
    show "PrevElement h (at p x) = Some (Inl ErrBegOfDoc, at p (addr t, 0))" by simp
    assume "xs \<noteq> []"
    with wf_doc_backward(3)[OF wf L] have "(addr t, 0) \<in> set xs"
      by (metis last_ConsR last_in_set rev_is_Nil_conv set_rev)
    from distinct_split_earlier[OF dis this]
    show "node (at p (addr t, 0)) \<noteq> node (at p x)" by simp
  }
qed

theorem Element_search_no_rollback_witness:
  "wf_doc ex_heap2 ex_tree2
   \<and> NextElement ex_heap2 (ex_at 8 4) = Some (Inl ErrEndOfDoc, ex_at 9 1)
   \<and> PrevElement ex_heap2 (ex_at 1 1) = Some (Inl ErrBegOfDoc, ex_at 0 0)
   \<and> NextElement ex_heap2 (ex_at 5 4) = Some (Inr 6, ex_at 6 2)
   \<and> PrevElement ex_heap2 (ex_at 5 4) = Some (Inr 4, ex_at 4 3)"
proof -
  have L1: "preorder ex_tree2 0 =
      [(0, 0), (1, 1), (2, 1), (3, 2), (4, 3), (5, 4), (6, 2), (7, 3)] @ (8, 4) # [(9, 1)]"
    by (simp add: ex_preorder2)
  have L2: "preorder ex_tree2 0 =
      [(0, 0)] @ (1, 1) # [(2, 1), (3, 2), (4, 3), (5, 4), (6, 2), (7, 3), (8, 4), (9, 1)]"
    by (simp add: ex_preorder2)
  have L3: "preorder ex_tree2 0 =
      [(0, 0), (1, 1), (2, 1), (3, 2), (4, 3)] @ (5, 4) # [(6, 2), (7, 3), (8, 4), (9, 1)]"
    by (simp add: ex_preorder2)
  have n1: "\<forall>y\<in>set ((8, 4) # [(9, 1)]). \<not> isElem (ex_heap2 (fst y))"
    by (simp add: isElem_def ex_heap2_def ex_defs)
  have n2: "\<forall>y\<in>set ((1, 1) # [(0, 0)]). \<not> isElem (ex_heap2 (fst y))"
    by (simp add: isElem_def ex_heap2_def ex_defs)
  have a: "NextElement ex_heap2 (ex_at 8 4) = Some (Inl ErrEndOfDoc, ex_at 9 1)"
    using Element_search_no_rollback[OF wf_ex2 L1, of "ex_at 0 0", THEN conjunct2, THEN conjunct2, THEN conjunct1,
        THEN mp, OF n1, THEN conjunct1]
    by (simp add: at_def ex_at_def)
  have b: "PrevElement ex_heap2 (ex_at 1 1) = Some (Inl ErrBegOfDoc, ex_at 0 0)"
    using Element_search_no_rollback[OF wf_ex2 L2, of "ex_at 0 0", THEN conjunct2, THEN conjunct2, THEN conjunct2,
        THEN mp, OF n2, THEN conjunct1]
    by (simp add: at_def ex_at_def ex_tree2_def)
  have c: "NextElement ex_heap2 (ex_at 5 4) = Some (Inr 6, ex_at 6 2)"
    using Element_search_no_rollback[OF wf_ex2 L3, of "ex_at 0 0", THEN conjunct1]
    by (simp add: found_def isElem_def ex_heap2_def ex_defs at_def)
  have d: "PrevElement ex_heap2 (ex_at 5 4) = Some (Inr 4, ex_at 4 3)"
    using Element_search_no_rollback[OF wf_ex2 L3, of "ex_at 0 0", THEN conjunct2, THEN conjunct1]
    by (simp add: found_def isElem_def ex_heap2_def ex_defs at_def)
  from wf_ex2 a b c d show ?thesis by simp
qed

text \<open>
  C10. When the current node is an element, \<open>NextElement\<close> and \<open>PrevElement\<close> return it
  at once: the loop body is not entered, so neither \<open>Next\<close> nor \<open>Prev\<close> is called and the
  parser is unchanged.
\<close>

theorem Element_search_stays_on_element:
  "isElem (h (node p)) \<Longrightarrow>
   NextElement h p = Some (Inr (node p), p) \<and> PrevElement h p = Some (Inr (node p), p)"
  by (simp add: NextElement.simps PrevElement.simps)

theorem Element_search_stays_on_element_witness:
  "isElem (ex_heap (node (ex_at 3 2)))
   \<and> NextElement ex_heap (ex_at 3 2) = Some (Inr 3, ex_at 3 2)
   \<and> PrevElement ex_heap (ex_at 3 2) = Some (Inr 3, ex_at 3 2)"
proof -
  have e: "isElem (ex_heap (node (ex_at 3 2)))"
    by (simp add: isElem_def ex_defs)
  from Element_search_stays_on_element[of ex_heap "ex_at 3 2"] e show ?thesis
    by (simp add: ex_at_def)
qed

end
